theory Spec2Isabelle
  imports Main "HOL-Library.AList" "HOL-Library.Sublist"
begin

section \<open>Strings as the page engine sees them\<close>

text \<open>
  A JavaScript string is modelled as a \<^typ>\<open>string\<close>; the characters of interest are the
  ASCII ones. \<open>String.prototype.trim\<close> and the regular-expression class \<open>\s\<close> strip
  the same characters; the ASCII ones are tab, line feed, vertical tab, form feed,
  carriage return and space.
\<close>

definition isSpace :: "char \<Rightarrow> bool" where
  "isSpace c = (c \<in> set [CHR 0x09, CHR 0x0A, CHR 0x0B, CHR 0x0C, CHR 0x0D, CHR '' ''])"

definition isDigit :: "char \<Rightarrow> bool" where
  "isDigit c = (c \<in> set ''0123456789'')"

definition isLower :: "char \<Rightarrow> bool" where
  "isLower c = (c \<in> set ''abcdefghijklmnopqrstuvwxyz'')"

definition trim :: "string \<Rightarrow> string" where
  "trim s = rev (dropWhile isSpace (rev (dropWhile isSpace s)))"

definition lowerChar :: "char \<Rightarrow> char" where
  "lowerChar c =
     (case map_of (zip ''ABCDEFGHIJKLMNOPQRSTUVWXYZ'' ''abcdefghijklmnopqrstuvwxyz'') c of
        Some d \<Rightarrow> d | None \<Rightarrow> c)"

definition upperChar :: "char \<Rightarrow> char" where
  "upperChar c =
     (case map_of (zip ''abcdefghijklmnopqrstuvwxyz'' ''ABCDEFGHIJKLMNOPQRSTUVWXYZ'') c of
        Some d \<Rightarrow> d | None \<Rightarrow> c)"

definition toLowerCase :: "string \<Rightarrow> string" where
  "toLowerCase s = map lowerChar s"

text \<open>\<open>s.split(c)\<close> for a one-character separator: the empty string gives one empty piece.\<close>

fun split :: "char \<Rightarrow> string \<Rightarrow> string list" where
  "split c [] = [Nil]"
| "split c (x # xs) =
     (if x = c then [] # split c xs
      else (case split c xs of [] \<Rightarrow> [x] # [] | p # ps \<Rightarrow> (x # p) # ps))"

text \<open>\<open>parts.join(sep)\<close>.\<close>

fun joinWith :: "string \<Rightarrow> string list \<Rightarrow> string" where
  "joinWith sep [] = []"
| "joinWith sep [p] = p"
| "joinWith sep (p # q # ps) = p @ sep @ joinWith sep (q # ps)"

text \<open>Substring search: \<open>startsWith\<close>, \<open>indexOf\<close>, \<open>lastIndexOf\<close>, \<open>includes\<close>;
  \<open>None\<close> stands for the index \<open>-1\<close>.\<close>

fun startsWith :: "string \<Rightarrow> string \<Rightarrow> bool" where
  "startsWith s [] = True"
| "startsWith [] (p # ps) = False"
| "startsWith (x # xs) (p # ps) = (x = p \<and> startsWith xs ps)"

fun indexOf :: "string \<Rightarrow> string \<Rightarrow> nat option" where
  "indexOf [] sub = (if sub = [] then Some 0 else None)"
| "indexOf (x # xs) sub =
     (if startsWith (x # xs) sub then Some 0 else map_option Suc (indexOf xs sub))"

fun lastIndexOf :: "string \<Rightarrow> string \<Rightarrow> nat option" where
  "lastIndexOf [] sub = (if sub = [] then Some 0 else None)"
| "lastIndexOf (x # xs) sub =
     (case lastIndexOf xs sub of
        Some i \<Rightarrow> Some (Suc i)
      | None \<Rightarrow> if startsWith (x # xs) sub then Some 0 else None)"

definition string_includes :: "string \<Rightarrow> string \<Rightarrow> bool" where
  "string_includes s sub = (indexOf s sub \<noteq> None)"

text \<open>Decimal digits: \<open>parseInt(digits, 10)\<close> on a run of digits, and the rendering of a
  non-negative integer inside a template literal. Numbers are exact integers here;
  the values a route table holds are far below the 53 bits a JavaScript number keeps exactly.\<close>

definition digitVal :: "char \<Rightarrow> nat" where
  "digitVal c = (case map_of (zip ''0123456789'' [0, 1, 2, 3, 4, 5, 6, 7, 8, 9]) c of
                   Some d \<Rightarrow> d | None \<Rightarrow> 0)"

definition parseInt :: "string \<Rightarrow> nat" where
  "parseInt ds = foldl (\<lambda>n c. 10 * n + digitVal c) 0 ds"

definition digitChar :: "nat \<Rightarrow> char" where
  "digitChar d = ''0123456789'' ! d"

fun showNat :: "nat \<Rightarrow> string" where
  "showNat n = (if n < 10 then [digitChar n] else showNat (n div 10) @ [digitChar (n mod 10)])"

declare showNat.simps [simp del]

section \<open>Page names: \<open>parsePageNames\<close> (prompts.ts)\<close>

text \<open>\<open>name.replace(/[^a-z0-9-]/g, '-')\<close>\<close>

definition isSlugChar :: "char \<Rightarrow> bool" where
  "isSlugChar c = (isLower c \<or> isDigit c \<or> c = CHR ''-'')"

definition replaceInvalid :: "string \<Rightarrow> string" where
  "replaceInvalid s = map (\<lambda>c. if isSlugChar c then c else CHR ''-'') s"

text \<open>\<open>name.replace(/-+/g, '-')\<close>: every run of hyphens becomes one hyphen.\<close>

fun collapseHyphens :: "string \<Rightarrow> string" where
  "collapseHyphens (x # y # xs) =
     (if x = CHR ''-'' \<and> y = CHR ''-'' then collapseHyphens (y # xs)
      else x # collapseHyphens (y # xs))"
| "collapseHyphens xs = xs"

text \<open>
  \<open>name.replace(/^-|-$/g, '')\<close>: the global search first removes a hyphen at index 0,
  then goes on behind it and removes a hyphen that is the last character.
\<close>

definition stripEdgeHyphens :: "string \<Rightarrow> string" where
  "stripEdgeHyphens s =
     (let s1 = (case s of [] \<Rightarrow> [] | x # xs \<Rightarrow> if x = CHR ''-'' then xs else s)
      in if s1 \<noteq> [] \<and> last s1 = CHR ''-'' then butlast s1 else s1)"

definition reservedNames :: "string list" where
  "reservedNames = [''index'', ''blog'', ''404'', ''rss'']"

definition sanitizeName :: "string \<Rightarrow> string" where
  "sanitizeName name = stripEdgeHyphens (collapseHyphens (replaceInvalid name))"

definition parsePageNames :: "string \<Rightarrow> string list" where
  "parsePageNames input =
     (if trim input = [] then []
      else filter (\<lambda>name. length name > 0 \<and> name \<notin> set reservedNames)
             (map sanitizeName
                (filter (\<lambda>name. length name > 0)
                   (map (\<lambda>name. toLowerCase (trim name)) (split CHR '','' input)))))"

section \<open>Slug helpers of the page generator (features/pages.ts)\<close>

definition capitalize :: "string \<Rightarrow> string" where
  "capitalize word = (case word of [] \<Rightarrow> [] | c # cs \<Rightarrow> upperChar c # cs)"

definition toTitle :: "string \<Rightarrow> string" where
  "toTitle slug = joinWith '' '' (map capitalize (split CHR ''-'' slug))"

definition toRouteId :: "string \<Rightarrow> string" where
  "toRouteId slug = map (\<lambda>c. if c = CHR ''-'' then CHR ''_'' else c) slug"

text \<open>The shape \<open>parsePageNames\<close> promises for each page name it lets through.\<close>

fun hasDoubleHyphen :: "string \<Rightarrow> bool" where
  "hasDoubleHyphen (x # y # xs) = ((x = CHR ''-'' \<and> y = CHR ''-'') \<or> hasDoubleHyphen (y # xs))"
| "hasDoubleHyphen xs = False"

definition validSlug :: "string \<Rightarrow> bool" where
  "validSlug s =
     (s \<noteq> [] \<and> (\<forall>c \<in> set s. isLower c \<or> isDigit c \<or> c = CHR ''-'') \<and>
      hd s \<noteq> CHR ''-'' \<and> last s \<noteq> CHR ''-'' \<and> \<not> hasDoubleHyphen s \<and>
      s \<notin> set [''index'', ''blog'', ''404'', ''rss''])"

section \<open>The working tree\<close>

text \<open>
  The project directory under construction is a tree: a file with its text, or a
  directory with its named entries, in the order \<open>readdirSync\<close> lists them. A path is the
  list of names below the project root, so \<open>join(targetDir, 'src', 'config', 'routes.ts')\<close>
  is \<open>[''src'', ''config'', ''routes.ts'']\<close>.
\<close>

datatype node = File string | Dir "(string \<times> node) list"

type_synonym path = "string list"

datatype error =
    ENOENT | ENOTDIR | EISDIR | EEXIST
  | DownloadFailed | RegistryUnavailable | TemplateNotFound
  | PackageJsonNotFound | JsonSyntaxError | RangeError

definition andThen :: "error + 'a \<Rightarrow> ('a \<Rightarrow> error + 'b) \<Rightarrow> error + 'b" where
  "andThen r f = (case r of Inl e \<Rightarrow> Inl e | Inr x \<Rightarrow> f x)"

fun lookup :: "path \<Rightarrow> node \<Rightarrow> node option" where
  "lookup [] n = Some n"
| "lookup (s # p) (File c) = None"
| "lookup (s # p) (Dir es) = (case map_of es s of None \<Rightarrow> None | Some ch \<Rightarrow> lookup p ch)"

definition existsSync :: "path \<Rightarrow> node \<Rightarrow> bool" where
  "existsSync p t = (lookup p t \<noteq> None)"

definition fileAt :: "path \<Rightarrow> node \<Rightarrow> string option" where
  "fileAt p t = (case lookup p t of Some (File c) \<Rightarrow> Some c | _ \<Rightarrow> None)"

definition readFileSync :: "path \<Rightarrow> node \<Rightarrow> error + string" where
  "readFileSync p t =
     (case lookup p t of None \<Rightarrow> Inl ENOENT | Some (Dir es) \<Rightarrow> Inl EISDIR | Some (File c) \<Rightarrow> Inr c)"

text \<open>\<open>writeFileSync\<close> and \<open>copyFileSync\<close> create or overwrite a file; the directory that
  holds it must exist and the target must not be a directory.\<close>

fun writeFileSync :: "path \<Rightarrow> string \<Rightarrow> node \<Rightarrow> error + node" where
  "writeFileSync [] c n = Inl EISDIR"
| "writeFileSync (s # p) c (File old) = Inl ENOTDIR"
| "writeFileSync [s] c (Dir es) =
     (case map_of es s of
        Some (Dir sub) \<Rightarrow> Inl EISDIR
      | _ \<Rightarrow> Inr (Dir (AList.update s (File c) es)))"
| "writeFileSync (s # s' # p) c (Dir es) =
     (case map_of es s of
        None \<Rightarrow> Inl ENOENT
      | Some ch \<Rightarrow> andThen (writeFileSync (s' # p) c ch) (\<lambda>ch'. Inr (Dir (AList.update s ch' es))))"

text \<open>\<open>mkdirSync(p, {recursive: true})\<close> creates every missing directory along the path.\<close>

fun mkdirSync :: "path \<Rightarrow> node \<Rightarrow> error + node" where
  "mkdirSync [] (Dir es) = Inr (Dir es)"
| "mkdirSync [] (File c) = Inl EEXIST"
| "mkdirSync (s # p) (File c) = Inl ENOTDIR"
| "mkdirSync (s # p) (Dir es) =
     andThen (mkdirSync p (case map_of es s of None \<Rightarrow> Dir [] | Some ch \<Rightarrow> ch))
       (\<lambda>ch'. Inr (Dir (AList.update s ch' es)))"

text \<open>\<open>rmSync(p, {recursive: true, force: true})\<close>: the entry and all below it go; a
  missing path is no error.\<close>

fun rmRecursive :: "path \<Rightarrow> node \<Rightarrow> node" where
  "rmRecursive [] n = n"
| "rmRecursive (s # p) (File c) = File c"
| "rmRecursive [s] (Dir es) = Dir (AList.delete s es)"
| "rmRecursive (s # s' # p) (Dir es) =
     (case map_of es s of
        None \<Rightarrow> Dir es
      | Some ch \<Rightarrow> Dir (AList.update s (rmRecursive (s' # p) ch) es))"

text \<open>\<open>rmSync(p, {force: true})\<close> inside \<open>try { } catch { }\<close>: a file goes, a missing path
  is ignored by \<open>force\<close>, and the error raised for a directory is swallowed by the handler.\<close>

fun rmFile :: "path \<Rightarrow> node \<Rightarrow> node" where
  "rmFile [] n = n"
| "rmFile (s # p) (File c) = File c"
| "rmFile [s] (Dir es) =
     (case map_of es s of Some (File c) \<Rightarrow> Dir (AList.delete s es) | _ \<Rightarrow> Dir es)"
| "rmFile (s # s' # p) (Dir es) =
     (case map_of es s of
        None \<Rightarrow> Dir es
      | Some ch \<Rightarrow> Dir (AList.update s (rmFile (s' # p) ch) es))"

section \<open>Route-table mutation engine (features/pages.ts)\<close>

subsection \<open>Navigation order\<close>

text \<open>
  \<open>content.matchAll(/order:\s*(\d+)/g)\<close>: at a position the pattern matches when the
  text \<open>order:\<close> is followed by any white space and then at least one digit; the group
  is the whole run of digits, and the search goes on behind the match.
\<close>

definition matchOrderAt :: "string \<Rightarrow> (string \<times> string) option" where
  "matchOrderAt s =
     (if startsWith s ''order:'' then
        (let r = dropWhile isSpace (drop 6 s); ds = takeWhile isDigit r
         in if ds = [] then None else Some (ds, dropWhile isDigit r))
      else None)"

function orderMatches :: "string \<Rightarrow> string list" where
  "orderMatches [] = []"
| "orderMatches (x # xs) =
     (case matchOrderAt (x # xs) of
        Some (ds, rest) \<Rightarrow> ds # orderMatches rest
      | None \<Rightarrow> orderMatches xs)"
  by pat_completeness auto
termination
proof (relation "measure length")
  fix x :: char and xs ds rest and m :: "string \<times> string"
  assume "matchOrderAt (x # xs) = Some m" and "(ds, rest) = m"
  then have "rest = dropWhile isDigit (dropWhile isSpace (drop 6 (x # xs)))"
    by (auto simp: matchOrderAt_def Let_def split: if_splits)
  moreover have "length (dropWhile isDigit (dropWhile isSpace (drop 6 (x # xs)))) \<le> length xs"
    using length_dropWhile_le[of isDigit "dropWhile isSpace (drop 6 (x # xs))"]
      length_dropWhile_le[of isSpace "drop 6 (x # xs)"]
    by simp
  ultimately show "(rest, x # xs) \<in> measure length" by simp
qed simp_all

definition getNextNavOrder :: "string \<Rightarrow> nat" where
  "getNextNavOrder content =
     foldl (\<lambda>maxOrder orderStr.
              (let order = parseInt orderStr in if order > maxOrder then order else maxOrder))
           0 (orderMatches content)
     + 10"

subsection \<open>Texts spliced into the configuration files\<close>

definition apos :: string where
  "apos = [CHR 0x27]"

definition baseRouteEntry :: "string \<Rightarrow> string \<Rightarrow> nat \<Rightarrow> string \<Rightarrow> string" where
  \<open>baseRouteEntry pageName routeId navOrder title = ''
  // Custom page: '' @ pageName @ ''
  '' @ routeId @ '': {
    path: '/'' @ pageName @ apos @ '',
    nav: { show: true, order: '' @ showNat navOrder @ '', label: '' @ apos @ title @ apos @ '' },
  },
''\<close>

definition i18nRouteEntry :: "string \<Rightarrow> string \<Rightarrow> nat \<Rightarrow> string" where
  \<open>i18nRouteEntry pageName routeId navOrder = ''
  // Custom page: '' @ pageName @ ''
  '' @ routeId @ '': {
    en: '' @ apos @ pageName @ apos @ '', es: '' @ apos @ pageName @ apos @ '', fr: ''
      @ apos @ pageName @ apos @ '',
    nav: { show: true, order: '' @ showNat navOrder @ '', label: 'nav.'' @ routeId @ apos @ '' },
  },
''\<close>

definition navTranslationLine :: "string \<Rightarrow> string \<Rightarrow> string" where
  \<open>navTranslationLine routeId title = ''    '' @ routeId @ '': '' @ apos @ title @ apos @ '',
  ''\<close>

definition pageTranslations :: "string \<Rightarrow> string \<Rightarrow> string" where
  \<open>pageTranslations routeId title = ''
  // '' @ title @ '' page
  '' @ routeId @ '': {
    title: '' @ apos @ title @ apos @ '',
    description: 'Add your '' @ toLowerCase title @ '' page description here.',
  },

''\<close>

subsection \<open>Splicing a route into \<open>src/config/routes.ts\<close>\<close>

definition routeAnchor :: string where
  "routeAnchor = ''} as const satisfies''"

definition addBaseRouteEntry :: "string \<Rightarrow> node \<Rightarrow> error + node" where
  "addBaseRouteEntry pageName t =
     (let routesPath = [''src'', ''config'', ''routes.ts''] in
      if \<not> existsSync routesPath t then Inr t
      else
        (let routeId = toRouteId pageName; title = toTitle pageName in
         andThen (readFileSync routesPath t) (\<lambda>content.
           if string_includes content (routeId @ '':'') then Inr t
           else (case indexOf content routeAnchor of
                   None \<Rightarrow> Inr t
                 | Some insertPoint \<Rightarrow>
                     (let navOrder = getNextNavOrder content;
                          newRoute = baseRouteEntry pageName routeId navOrder title;
                          newContent = take insertPoint content @ newRoute @ drop insertPoint content
                      in writeFileSync routesPath newContent t)))))"

subsection \<open>Translation keys\<close>

text \<open>
  \<open>content.match(/nav:\s*\{([^}]+)\}/)\<close>: the leftmost place where \<open>nav:\<close>, white space and
  an opening brace are followed by a non-empty text without a closing brace and then a
  closing brace. The result is the text before the match and the matched text.
\<close>

definition matchNavAt :: "string \<Rightarrow> string option" where
  "matchNavAt s =
     (if startsWith s ''nav:'' then
        (let ws = takeWhile isSpace (drop 4 s); r = dropWhile isSpace (drop 4 s) in
         (case r of
            [] \<Rightarrow> None
          | b # r' \<Rightarrow>
              (let body = takeWhile (\<lambda>c. c \<noteq> CHR ''}'') r' in
               if b = CHR ''{'' \<and> body \<noteq> [] \<and> length body < length r'
               then Some (''nav:'' @ ws @ ''{'' @ body @ ''}'')
               else None)))
      else None)"

fun matchNavSection :: "string \<Rightarrow> string option" where
  "matchNavSection [] = None"
| "matchNavSection (x # xs) =
     (case matchNavAt (x # xs) of Some m \<Rightarrow> Some m | None \<Rightarrow> matchNavSection xs)"

text \<open>
  \<open>content.replace(pattern, replacement)\<close> with a string pattern replaces the first
  occurrence; in the replacement \<open>$$\<close>, \<open>$&\<close>, \<open>$`\<close> and \<open>$'\<close> stand for a dollar sign, the
  matched text, the text before it and the text behind it.
\<close>

fun getSubstitution :: "string \<Rightarrow> string \<Rightarrow> string \<Rightarrow> string \<Rightarrow> string" where
  "getSubstitution matched pre post [] = []"
| "getSubstitution matched pre post [c] = [c]"
| "getSubstitution matched pre post (c # d # r) =
     (if c = CHR ''$'' \<and> d = CHR ''$'' then CHR ''$'' # getSubstitution matched pre post r
      else if c = CHR ''$'' \<and> d = CHR ''&'' then matched @ getSubstitution matched pre post r
      else if c = CHR ''$'' \<and> d = CHR 0x60 then pre @ getSubstitution matched pre post r
      else if c = CHR ''$'' \<and> d = CHR 0x27 then post @ getSubstitution matched pre post r
      else c # getSubstitution matched pre post (d # r))"

definition replaceFirst :: "string \<Rightarrow> string \<Rightarrow> string \<Rightarrow> string" where
  "replaceFirst content pat repl =
     (case indexOf content pat of
        None \<Rightarrow> content
      | Some i \<Rightarrow>
          (let pre = take i content; post = drop (i + length pat) content
           in pre @ getSubstitution pat pre post repl @ post))"

text \<open>
  \<open>new RegExp(`^\\s*${routeId}:\\s*\\{`, 'm').test(content)\<close>: some line starts with white
  space, the route identifier, a colon, white space and an opening brace. A route
  identifier made from a page name has letters, digits and underscores only, so it stands
  for itself in the pattern.
\<close>

definition isLineTerminator :: "char \<Rightarrow> bool" where
  "isLineTerminator c = (c = CHR 0x0A \<or> c = CHR 0x0D)"

definition matchPageKeyAt :: "string \<Rightarrow> string \<Rightarrow> bool" where
  "matchPageKeyAt routeId s =
     (let r = dropWhile isSpace s in
      startsWith r (routeId @ '':'') \<and>
      startsWith (dropWhile isSpace (drop (length routeId + 1) r)) ''{'')"

fun testPageKey :: "bool \<Rightarrow> string \<Rightarrow> string \<Rightarrow> bool" where
  "testPageKey lineStart routeId [] = (lineStart \<and> matchPageKeyAt routeId [])"
| "testPageKey lineStart routeId (c # cs) =
     ((lineStart \<and> matchPageKeyAt routeId (c # cs)) \<or> testPageKey (isLineTerminator c) routeId cs)"

definition addNavKey :: "string \<Rightarrow> string \<Rightarrow> string \<Rightarrow> string" where
  "addNavKey routeId title content =
     (if \<not> string_includes content (routeId @ '':'') then
        (case matchNavSection content of
           None \<Rightarrow> content
         | Some navSection \<Rightarrow>
             (case lastIndexOf navSection ''}'' of
                None \<Rightarrow> content
              | Some insertPoint \<Rightarrow>
                  (let newNavSection = take insertPoint navSection @ navTranslationLine routeId title
                                         @ drop insertPoint navSection
                   in replaceFirst content navSection newNavSection)))
      else content)"

definition addPageKeys :: "string \<Rightarrow> string \<Rightarrow> string \<Rightarrow> string" where
  "addPageKeys routeId title content =
     (if \<not> testPageKey True routeId content then
        (case lastIndexOf content ''} as const'' of
           None \<Rightarrow> content
         | Some insertPoint \<Rightarrow>
             take insertPoint content @ pageTranslations routeId title @ drop insertPoint content)
      else content)"

fun addI18nTranslationKeysLoop :: "string list \<Rightarrow> string \<Rightarrow> string \<Rightarrow> node \<Rightarrow> error + node" where
  "addI18nTranslationKeysLoop [] routeId title t = Inr t"
| "addI18nTranslationKeysLoop (locale # locales) routeId title t =
     (let translationPath = [''src'', ''i18n'', ''translations'', locale @ ''.ts''] in
      if \<not> existsSync translationPath t then addI18nTranslationKeysLoop locales routeId title t
      else
        andThen (readFileSync translationPath t) (\<lambda>content.
        andThen (writeFileSync translationPath
                   (addPageKeys routeId title (addNavKey routeId title content)) t) (\<lambda>t'.
        addI18nTranslationKeysLoop locales routeId title t')))"

definition addI18nTranslationKeys :: "string \<Rightarrow> string \<Rightarrow> node \<Rightarrow> error + node" where
  "addI18nTranslationKeys routeId title t =
     addI18nTranslationKeysLoop [''en'', ''es'', ''fr''] routeId title t"

subsection \<open>Splicing a route into \<open>src/i18n/routes.ts\<close>\<close>

definition addI18nRouteEntry :: "string \<Rightarrow> node \<Rightarrow> error + node" where
  "addI18nRouteEntry pageName t =
     (let routesPath = [''src'', ''i18n'', ''routes.ts''] in
      if \<not> existsSync routesPath t then Inr t
      else
        (let routeId = toRouteId pageName in
         andThen (readFileSync routesPath t) (\<lambda>content.
           if string_includes content (routeId @ '':'') then Inr t
           else (case indexOf content routeAnchor of
                   None \<Rightarrow> Inr t
                 | Some insertPoint \<Rightarrow>
                     (let navOrder = getNextNavOrder content;
                          title = toTitle pageName;
                          newRoute = i18nRouteEntry pageName routeId navOrder;
                          newContent = take insertPoint content @ newRoute @ drop insertPoint content
                      in andThen (writeFileSync routesPath newContent t) (\<lambda>t'.
                         addI18nTranslationKeys routeId title t'))))))"

subsection \<open>Page bodies\<close>

datatype PageLayout = PageL | LandingL

definition layoutName :: "PageLayout \<Rightarrow> string" where
  "layoutName layout = (if layout = LandingL then ''LandingLayout'' else ''PageLayout'')"

definition generatePageTemplate :: "string \<Rightarrow> PageLayout \<Rightarrow> string" where
  \<open>generatePageTemplate pageName layout =
     (let title = toTitle pageName; layoutName = layoutName layout in
''---
import '' @ layoutName @ '' from '@/layouts/'' @ layoutName @ ''.astro';
---

<'' @ layoutName @ ''
  title="'' @ title @ ''"
  description="Add your description here"
>
  <!-- Hero Section -->
  <section class="py-20 bg-secondary">
    <div class="container">
      <h1 class="text-4xl font-bold text-foreground">'' @ title @ ''</h1>
      <p class="mt-4 text-foreground-muted max-w-2xl">
        Add your content here.
      </p>
    </div>
  </section>

  <!-- Content Section -->
  <section class="py-16">
    <div class="container">
      <!-- Your content -->
    </div>
  </section>
</'' @ layoutName @ ''>
'')\<close>

definition generateI18nPageTemplate :: "string \<Rightarrow> PageLayout \<Rightarrow> string" where
  \<open>generateI18nPageTemplate pageName layout =
     (let title = toTitle pageName; layoutName = layoutName layout;
          routeId = toRouteId pageName;
          titleKey = routeId @ ''.title'';
          descKey = routeId @ ''.description'' in
''---
import '' @ layoutName @ '' from '@/layouts/'' @ layoutName @ ''.astro';
import { locales, isValidLocale, defaultLocale, type Locale } from '@/i18n/config';
import { useTranslations } from '@/i18n/index';
import { routes } from '@/i18n/routes';

export function getStaticPaths() {
  return locales
    .filter((lang) => lang !== defaultLocale)
    .map((lang) => ({
      params: {
        lang,
        '' @ routeId @ '': routes.'' @ routeId @ ''[lang],
      },
    }));
}

const { lang } = Astro.params;

if (!lang || !isValidLocale(lang)) {
  return Astro.redirect('/');
}

const locale = lang as Locale;
const t = useTranslations(locale);
---

<'' @ layoutName @ ''
  title={t('' @ apos @ titleKey @ apos @ '') || '' @ apos @ title @ apos @ ''}
  description={t('' @ apos @ descKey @ apos @ '') || 'Add your description here'}
  lang={locale}
  routeId="'' @ routeId @ ''"
>
  <!-- Hero Section -->
  <section class="py-20 bg-secondary">
    <div class="container">
      <h1 class="text-4xl font-bold text-foreground">
        {t('' @ apos @ titleKey @ apos @ '') || '' @ apos @ title @ apos @ ''}
      </h1>
      <p class="mt-4 text-foreground-muted max-w-2xl">
        {t('' @ apos @ descKey @ apos @ '') || 'Add your content here.'}
      </p>
    </div>
  </section>

  <!-- Content Section -->
  <section class="py-16">
    <div class="container">
      <!-- Your content -->
    </div>
  </section>
</'' @ layoutName @ ''>
'')\<close>

subsection \<open>\<open>generatePages\<close>\<close>

text \<open>
  The state of a run is the working tree and the list of generated paths. A page name
  holds no path separator (it comes from \<open>parsePageNames\<close>), so \<open>${pageName}.astro\<close> is
  the name of one entry of the pages directory.
\<close>

definition ensureDir :: "path \<Rightarrow> node \<Rightarrow> error + node" where
  "ensureDir p t = (if \<not> existsSync p t then mkdirSync p t else Inr t)"

fun standardPagesLoop ::
  "string list \<Rightarrow> PageLayout \<Rightarrow> bool \<Rightarrow> node \<times> string list \<Rightarrow> error + node \<times> string list" where
  "standardPagesLoop [] layout isI18n st = Inr st"
| "standardPagesLoop (pageName # pages) layout isI18n (t, generatedFiles) =
     andThen (writeFileSync [''src'', ''pages'', pageName @ ''.astro'']
                (generatePageTemplate pageName layout) t) (\<lambda>t1.
     andThen (if \<not> isI18n then addBaseRouteEntry pageName t1 else Inr t1) (\<lambda>t2.
     standardPagesLoop pages layout isI18n
       (t2, generatedFiles @ [''src/pages/'' @ pageName @ ''.astro''])))"

fun i18nPagesLoop ::
  "string list \<Rightarrow> PageLayout \<Rightarrow> node \<times> string list \<Rightarrow> error + node \<times> string list" where
  "i18nPagesLoop [] layout st = Inr st"
| "i18nPagesLoop (pageName # pages) layout (t, generatedFiles) =
     (let routeId = toRouteId pageName in
      andThen (writeFileSync [''src'', ''pages'', ''[lang]'', ''[...'' @ routeId @ ''].astro'']
                 (generateI18nPageTemplate pageName layout) t) (\<lambda>t1.
      andThen (addI18nRouteEntry pageName t1) (\<lambda>t2.
      i18nPagesLoop pages layout
        (t2, generatedFiles @ [''src/pages/[lang]/[...'' @ routeId @ ''].astro'']))))"

definition generatePages ::
  "node \<Rightarrow> string list \<Rightarrow> PageLayout \<Rightarrow> bool \<Rightarrow> error + node \<times> string list" where
  "generatePages t pages layout isI18n =
     (if length pages = 0 then Inr (t, [])
      else
        andThen (ensureDir [''src'', ''pages''] t) (\<lambda>t0.
        andThen (standardPagesLoop pages layout isI18n (t0, [])) (\<lambda>st.
        if isI18n then
          andThen (ensureDir [''src'', ''pages'', ''[lang]''] (fst st)) (\<lambda>t1.
          i18nPagesLoop pages layout (t1, snd st))
        else Inr st)))"

section \<open>Vocabulary of the stated properties\<close>

text \<open>The route table a run splices into: \<open>src/i18n/routes.ts\<close> in multi-language mode,
  \<open>src/config/routes.ts\<close> otherwise.\<close>

definition routesPath :: "bool \<Rightarrow> path" where
  "routesPath isI18n =
     (if isI18n then [''src'', ''i18n'', ''routes.ts''] else [''src'', ''config'', ''routes.ts''])"

text \<open>How often a text occurs in a file.\<close>

fun countOccurrences :: "string \<Rightarrow> string \<Rightarrow> nat" where
  "countOccurrences [] sub = (if sub = [] then 1 else 0)"
| "countOccurrences (x # xs) sub =
     (if startsWith (x # xs) sub then 1 else 0) + countOccurrences xs sub"




text \<open>
  A run leaves the route table alone when the table is missing, or is a file that already
  names every requested route or lacks the anchor.
\<close>

definition spliceSkipped :: "bool \<Rightarrow> string list \<Rightarrow> node \<Rightarrow> bool" where
  "spliceSkipped isI18n pages t =
     (case lookup (routesPath isI18n) t of
        None \<Rightarrow> True
      | Some (Dir es) \<Rightarrow> False
      | Some (File content) \<Rightarrow>
          list_all (\<lambda>p. string_includes content (toRouteId p @ '':'')) pages \<or>
          indexOf content routeAnchor = None)"

text \<open>The route table is missing, or is a file that does not hold the anchor.\<close>

definition anchorMissing :: "bool \<Rightarrow> node \<Rightarrow> bool" where
  "anchorMissing isI18n t =
     (case lookup (routesPath isI18n) t of
        None \<Rightarrow> True
      | Some (Dir es) \<Rightarrow> False
      | Some (File content) \<Rightarrow> \<not> string_includes content routeAnchor)"

definition pagePath :: "string \<Rightarrow> path" where
  "pagePath pageName = [''src'', ''pages'', pageName @ ''.astro'']"

definition i18nPagePath :: "string \<Rightarrow> path" where
  "i18nPagePath pageName = [''src'', ''pages'', ''[lang]'', ''[...'' @ toRouteId pageName @ ''].astro'']"

definition generatedNames :: "string list \<Rightarrow> bool \<Rightarrow> string list" where
  "generatedNames pages isI18n =
     map (\<lambda>p. ''src/pages/'' @ p @ ''.astro'') pages @
     (if isI18n then map (\<lambda>p. ''src/pages/[lang]/[...'' @ toRouteId p @ ''].astro'') pages else [])"

subsection \<open>Example route tables\<close>


definition routesAbout :: string where
  \<open>routesAbout = ''export const routes = {
  about: {order: 10},
} as const satisfies Routes;
''\<close>

definition routesAboutPricing :: string where
  \<open>routesAboutPricing = ''export const routes = {
  about: {order: 10},

  // Custom page: pricing
  pricing: {
    path: '/pricing',
    nav: { show: true, order: 20, label: 'Pricing' },
  },
} as const satisfies Routes;
''\<close>


definition routesNoAnchor :: string where
  \<open>routesNoAnchor = ''export const routes = {
  about: {order: 10},
};
''\<close>

definition projectWith :: "string \<Rightarrow> node" where
  "projectWith routes =
     Dir [(''package.json'', File ''{}''),
          (''src'', Dir [(''config'', Dir [(''routes.ts'', File routes)]),
                         (''pages'', Dir [(''index.astro'', File ''---'')])])]"

section \<open>Component registry and dependency resolver (registry/types.ts, registry/resolver.ts)\<close>

text \<open>
  A \<open>Record<string, T>\<close> is the list of its entries in the order \<open>Object.keys\<close> gives
  them; \<open>registry.components[id]\<close> is the lookup \<open>map_of\<close>. A JavaScript \<open>Set\<close> of strings
  keeps insertion order and is a list without repetitions: \<open>add\<close> appends a new element
  and leaves the set alone when the element is there already.
\<close>

record CategoryEntry =
  cat_name :: string
  cat_description :: string

record UtilityEntry =
  util_name :: string
  util_description :: string
  util_files :: "string list"
  util_npm :: "string list"

record ComponentDependencies =
  dep_utilities :: "string list"
  dep_components :: "string list"

record ComponentEntry =
  comp_name :: string
  comp_category :: string
  comp_files :: "string list"
  comp_dependencies :: ComponentDependencies
  comp_premium :: bool

record ComponentRegistry =
  reg_version :: string
  reg_categories :: "(string \<times> CategoryEntry) list"
  reg_utilities :: "(string \<times> UtilityEntry) list"
  reg_components :: "(string \<times> ComponentEntry) list"

datatype ComponentSelectionMode = ModeNone | ModeCategories | ModeIndividual | ModeAll

record ComponentSelection =
  sel_mode :: ComponentSelectionMode
  sel_categories :: "string list option"
  sel_components :: "string list option"

record ResolvedComponents =
  res_components :: "string list"
  res_utilities :: "string list"
  res_files :: "string list"
  res_npmPackages :: "string list"

definition setAdd :: "'a \<Rightarrow> 'a list \<Rightarrow> 'a list" where
  "setAdd x s = (if x \<in> set s then s else s @ [x])"

definition setAddAll :: "'a list \<Rightarrow> 'a list \<Rightarrow> 'a list" where
  "setAddAll xs s = foldl (\<lambda>acc x. setAdd x acc) s xs"

text \<open>The three sets the closure \<open>resolve\<close> fills.\<close>

record ResolveState =
  st_resolved :: "string list"
  st_utilities :: "string list"
  st_files :: "string list"

fun forEach :: "('a \<Rightarrow> 's \<Rightarrow> error + 's) \<Rightarrow> 'a list \<Rightarrow> 's \<Rightarrow> error + 's" where
  "forEach f [] s = Inr s"
| "forEach f (x # xs) s = andThen (f x s) (forEach f xs)"

text \<open>
  The recursive closure \<open>resolve(componentId)\<close>. The first argument is the number of call
  frames the stack still has room for: a call that finds no room raises \<open>RangeError\<close>
  (maximum call stack size exceeded). The component is marked resolved after its
  dependencies have been resolved. The warning printed for an unknown id is not part of
  the state.
\<close>

primrec resolve :: "nat \<Rightarrow> ComponentRegistry \<Rightarrow> string \<Rightarrow> ResolveState \<Rightarrow> error + ResolveState" where
  "resolve 0 registry componentId st = Inl RangeError"
| "resolve (Suc depth) registry componentId st =
     (if componentId \<in> set (st_resolved st) then Inr st
      else (case map_of (reg_components registry) componentId of
              None \<Rightarrow> Inr st
            | Some component \<Rightarrow>
                andThen (forEach (resolve depth registry)
                           (dep_components (comp_dependencies component)) st) (\<lambda>st1.
                Inr (st1\<lparr>st_utilities :=
                            setAddAll (dep_utilities (comp_dependencies component)) (st_utilities st1),
                          st_files := setAddAll (comp_files component) (st_files st1),
                          st_resolved := setAdd componentId (st_resolved st1)\<rparr>))))"

text \<open>The last loop: the files and packages of every collected utility bundle.\<close>

fun collectUtilities ::
  "ComponentRegistry \<Rightarrow> string list \<Rightarrow> string list \<times> string list \<Rightarrow> string list \<times> string list" where
  "collectUtilities registry [] acc = acc"
| "collectUtilities registry (utilId # utilIds) (files, npmPackages) =
     (case map_of (reg_utilities registry) utilId of
        None \<Rightarrow> collectUtilities registry utilIds (files, npmPackages)
      | Some utility \<Rightarrow>
          collectUtilities registry utilIds
            (setAddAll (util_files utility) files, setAddAll (util_npm utility) npmPackages))"

definition requestedComponents :: "ComponentSelection \<Rightarrow> ComponentRegistry \<Rightarrow> string list" where
  "requestedComponents selection registry =
     (case sel_mode selection of
        ModeNone \<Rightarrow> []
      | ModeAll \<Rightarrow> map fst (reg_components registry)
      | ModeCategories \<Rightarrow>
          (case sel_categories selection of
             None \<Rightarrow> []
           | Some cats \<Rightarrow>
               map fst (filter (\<lambda>(id, comp). comp_category comp \<in> set cats)
                          (reg_components registry)))
      | ModeIndividual \<Rightarrow> (case sel_components selection of None \<Rightarrow> [] | Some ids \<Rightarrow> ids))"

text \<open>\<open>resolveDependencies\<close>, run on a stack with room for \<open>maxDepth\<close> frames of \<open>resolve\<close>.\<close>

definition resolveDependencies ::
  "nat \<Rightarrow> ComponentSelection \<Rightarrow> ComponentRegistry \<Rightarrow> error + ResolvedComponents" where
  "resolveDependencies maxDepth selection registry =
     (if sel_mode selection = ModeNone
      then Inr \<lparr>res_components = [], res_utilities = [], res_files = [], res_npmPackages = []\<rparr>
      else
        andThen (forEach (resolve maxDepth registry) (requestedComponents selection registry)
                   \<lparr>st_resolved = [], st_utilities = [], st_files = []\<rparr>) (\<lambda>st.
        (case collectUtilities registry (st_utilities st) (st_files st, []) of
           (files, npmPackages) \<Rightarrow>
             Inr \<lparr>res_components = st_resolved st, res_utilities = st_utilities st,
                   res_files = files, res_npmPackages = npmPackages\<rparr>)))"

subsection \<open>Vocabulary of the resolver's properties\<close>





subsection \<open>Example registries\<close>

definition mkComponent :: "string \<Rightarrow> string \<Rightarrow> string list \<Rightarrow> string list \<Rightarrow> string list \<Rightarrow> ComponentEntry" where
  "mkComponent name category files utils deps =
     \<lparr>comp_name = name, comp_category = category, comp_files = files,
      comp_dependencies = \<lparr>dep_utilities = utils, dep_components = deps\<rparr>,
      comp_premium = False\<rparr>"





definition selectCategories :: "string list \<Rightarrow> ComponentSelection" where
  "selectCategories cats = \<lparr>sel_mode = ModeCategories, sel_categories = Some cats, sel_components = None\<rparr>"

section \<open>Overlay composition pipeline (scaffold.ts)\<close>

text \<open>
  \<open>join(targetDir, item)\<close> for a slash-separated path below the project root.
\<close>

definition splitPath :: "string \<Rightarrow> path" where
  "splitPath item = split CHR ''/'' item"

definition CLEANUP_ITEMS :: "string list" where
  "CLEANUP_ITEMS = [''pnpm-lock.yaml'', ''package-lock.json'', ''yarn.lock'', ''bun.lockb'', ''.git'']"

definition DEMO_CONTENT :: "string list" where
  "DEMO_CONTENT =
     [''src/components/landing'',
      ''src/components/hero'',
      ''src/pages/index.astro'',
      ''src/pages/about.astro'',
      ''src/pages/contact.astro'',
      ''src/pages/components.astro'',
      ''src/pages/[lang]/index.astro'',
      ''src/pages/[lang]/[...about].astro'',
      ''src/pages/[lang]/[...contact].astro'',
      ''src/pages/[lang]/[...components].astro'',
      ''src/layouts/LandingLayout.astro'',
      ''src/content/blog'',
      ''src/content/faqs'',
      ''src/content/authors'',
      ''src/content/pages'']"

definition OPTIONAL_COMPONENT_DIRS :: "string list" where
  "OPTIONAL_COMPONENT_DIRS = [''src/components/ui'', ''src/components/patterns'', ''src/components/hero'']"

subsection \<open>Copying an overlay\<close>

text \<open>
  \<open>copyTemplateFiles(src, dest)\<close>: the source is a directory of the installed package, a
  tree of its own; the destination is a path of the working tree. A file of the overlay
  replaces the file at the same place.
\<close>

fun copyTemplateFiles :: "node \<Rightarrow> path \<Rightarrow> node \<Rightarrow> error + node"
  and copyEntries :: "(string \<times> node) list \<Rightarrow> path \<Rightarrow> node \<Rightarrow> error + node" where
  "copyTemplateFiles (File c) dest t = Inl ENOTDIR"
| "copyTemplateFiles (Dir entries) dest t = andThen (ensureDir dest t) (copyEntries entries dest)"
| "copyEntries [] dest t = Inr t"
| "copyEntries ((name, File c) # entries) dest t =
     andThen (writeFileSync (dest @ [name]) c t) (copyEntries entries dest)"
| "copyEntries ((name, Dir sub) # entries) dest t =
     andThen (copyTemplateFiles (Dir sub) (dest @ [name]) t) (copyEntries entries dest)"

subsection \<open>Removing\<close>

fun removeItems :: "string list \<Rightarrow> node \<Rightarrow> node" where
  "removeItems [] t = t"
| "removeItems (item # items) t =
     (let itemPath = splitPath item in
      removeItems items (if existsSync itemPath t then rmRecursive itemPath t else t))"

text \<open>
  \<open>walkFilesRelative(absDir, relativeBase)\<close> on the entries of an existing directory: the
  relative path of every file below it, directories entered in place.
\<close>

fun walkEntries :: "(string \<times> node) list \<Rightarrow> string \<Rightarrow> string list" where
  "walkEntries [] relativeBase = []"
| "walkEntries ((name, File c) # entries) relativeBase =
     (relativeBase @ ''/'' @ name) # walkEntries entries relativeBase"
| "walkEntries ((name, Dir sub) # entries) relativeBase =
     walkEntries sub (relativeBase @ ''/'' @ name) @ walkEntries entries relativeBase"

text \<open>
  \<open>removeEmptyDirs(dir)\<close> works on the subtree at \<open>dir\<close>: the directories among the entries
  first, then the directory itself when nothing remains in it. \<open>None\<close> says that the
  directory has been removed.
\<close>

fun removeEmptyDirsNode :: "node \<Rightarrow> node option"
  and pruneEntries :: "(string \<times> node) list \<Rightarrow> (string \<times> node) list" where
  "removeEmptyDirsNode (File c) = Some (File c)"
| "removeEmptyDirsNode (Dir entries) =
     (let remaining = pruneEntries entries in if remaining = [] then None else Some (Dir remaining))"
| "pruneEntries [] = []"
| "pruneEntries ((name, File c) # entries) = (name, File c) # pruneEntries entries"
| "pruneEntries ((name, Dir sub) # entries) =
     (case removeEmptyDirsNode (Dir sub) of
        None \<Rightarrow> pruneEntries entries
      | Some n \<Rightarrow> (name, n) # pruneEntries entries)"

fun replaceAt :: "path \<Rightarrow> node option \<Rightarrow> node \<Rightarrow> node" where
  "replaceAt [] r n = (case r of None \<Rightarrow> n | Some n' \<Rightarrow> n')"
| "replaceAt (s # p) r (File c) = File c"
| "replaceAt [s] r (Dir es) =
     (case r of None \<Rightarrow> Dir (AList.delete s es) | Some n' \<Rightarrow> Dir (AList.update s n' es))"
| "replaceAt (s # s' # p) r (Dir es) =
     (case map_of es s of
        None \<Rightarrow> Dir es
      | Some ch \<Rightarrow> Dir (AList.update s (replaceAt (s' # p) r ch) es))"

definition removeEmptyDirs :: "path \<Rightarrow> node \<Rightarrow> node" where
  "removeEmptyDirs dir t =
     (case lookup dir t of None \<Rightarrow> t | Some n \<Rightarrow> replaceAt dir (removeEmptyDirsNode n) t)"

text \<open>The inner loop of \<open>keepOnlyFiles\<close>: every walked file that is not kept is removed.\<close>

fun removeUnkept :: "string list \<Rightarrow> string list \<Rightarrow> node \<Rightarrow> node" where
  "removeUnkept filesToKeep [] t = t"
| "removeUnkept filesToKeep (relativePath # allFiles) t =
     removeUnkept filesToKeep allFiles
       (if relativePath \<notin> set filesToKeep then rmFile (splitPath relativePath) t else t)"

fun keepOnlyFilesLoop :: "string list \<Rightarrow> string list \<Rightarrow> node \<Rightarrow> error + node" where
  "keepOnlyFilesLoop filesToKeep [] t = Inr t"
| "keepOnlyFilesLoop filesToKeep (dir # componentDirs) t =
     (let dirPath = splitPath dir in
      (case lookup dirPath t of
         None \<Rightarrow> keepOnlyFilesLoop filesToKeep componentDirs t
       | Some (File c) \<Rightarrow> Inl ENOTDIR
       | Some (Dir entries) \<Rightarrow>
           keepOnlyFilesLoop filesToKeep componentDirs
             (removeEmptyDirs dirPath (removeUnkept filesToKeep (walkEntries entries dir) t))))"

definition keepOnlyFiles :: "string list \<Rightarrow> node \<Rightarrow> error + node" where
  "keepOnlyFiles filesToKeep t =
     keepOnlyFilesLoop filesToKeep
       [''src/components/ui'', ''src/components/patterns'', ''src/components/hero''] t"

subsection \<open>What the pipeline takes from outside\<close>

text \<open>
  The collaborators of a run: the tree \<open>downloadTemplate\<close> leaves in the target directory
  (or its failure), the outcome of \<open>fetchRegistry\<close>, the room on the call stack, the two
  overlay directories shipped with the package (\<open>None\<close> when the directory is missing), the
  rewriting of \<open>package.json\<close> (parsing fails with \<open>None\<close>), and the provenance record.
\<close>

record ScaffoldEnv =
  env_downloadTemplate :: "error + node"
  env_fetchRegistry :: "error + ComponentRegistry"
  env_maxDepth :: nat
  env_i18nTemplate :: "node option"
  env_baseTemplate :: "node option"
  env_rewritePackageJson :: "string \<Rightarrow> string \<Rightarrow> string option"
  env_velocityJson :: "string option"

datatype PackageManager = Pnpm | Npm | Yarn | Bun

record ScaffoldOptions =
  opt_projectName :: string
  opt_demo :: bool
  opt_componentSelection :: ComponentSelection
  opt_i18n :: bool
  opt_pages :: "string list"
  opt_pageLayout :: PageLayout
  opt_packageManager :: PackageManager

subsection \<open>The stages\<close>

definition updatePackageJson :: "ScaffoldEnv \<Rightarrow> string \<Rightarrow> node \<Rightarrow> error + node" where
  "updatePackageJson env projectName t =
     (let pkgPath = [''package.json''] in
      if \<not> existsSync pkgPath t then Inl PackageJsonNotFound
      else
        andThen (readFileSync pkgPath t) (\<lambda>content.
          (case env_rewritePackageJson env projectName content of
             None \<Rightarrow> Inl JsonSyntaxError
           | Some pkg \<Rightarrow> writeFileSync pkgPath pkg t)))"

definition applyBaseTemplate :: "ScaffoldEnv \<Rightarrow> node \<Rightarrow> error + node" where
  "applyBaseTemplate env t =
     (case env_baseTemplate env of
        None \<Rightarrow> Inl TemplateNotFound
      | Some baseTemplate \<Rightarrow> copyTemplateFiles baseTemplate [] t)"

definition applyI18nOverlay :: "ScaffoldEnv \<Rightarrow> node \<Rightarrow> error + node" where
  "applyI18nOverlay env t =
     (case env_i18nTemplate env of
        None \<Rightarrow> Inl TemplateNotFound
      | Some i18nTemplate \<Rightarrow> copyTemplateFiles i18nTemplate [] t)"

fun createContentDirectoriesLoop :: "string list \<Rightarrow> node \<Rightarrow> error + node" where
  "createContentDirectoriesLoop [] t = Inr t"
| "createContentDirectoriesLoop (dir # contentDirs) t =
     (let dirPath = splitPath dir in
      if \<not> existsSync dirPath t then
        andThen (mkdirSync dirPath t) (\<lambda>t1.
        andThen (writeFileSync (dirPath @ [''.gitkeep'']) [] t1) (\<lambda>t2.
        createContentDirectoriesLoop contentDirs t2))
      else createContentDirectoriesLoop contentDirs t)"

definition createContentDirectories :: "node \<Rightarrow> error + node" where
  "createContentDirectories t = createContentDirectoriesLoop [''src/content/blog''] t"

text \<open>
  \<open>applyComponentSelection\<close>: a failure of the registry fetch, or of the resolution, is
  caught; the stage then keeps all components and returns normally.
\<close>

definition applyComponentSelection :: "ScaffoldEnv \<Rightarrow> ComponentSelection \<Rightarrow> node \<Rightarrow> error + node" where
  "applyComponentSelection env selection t =
     (if sel_mode selection = ModeAll then Inr t
      else if sel_mode selection = ModeNone then Inr (removeItems OPTIONAL_COMPONENT_DIRS t)
      else
        (case andThen (env_fetchRegistry env) (\<lambda>registry.
                resolveDependencies (env_maxDepth env) selection registry) of
           Inl e \<Rightarrow> Inr t
         | Inr resolved \<Rightarrow>
             andThen (keepOnlyFiles (res_files resolved) t) (\<lambda>t1.
               if ''cn'' \<in> set (res_utilities resolved)
               then ensureDir [''src'', ''lib''] t1
               else Inr t1)))"

text \<open>
  Modelled from the spec: \<open>createInitialConfig\<close> and \<open>writeVelocityConfig\<close>
  (utils/velocity-config.ts) are not among the sources. The specification has the step
  write a small provenance record into the target tree and swallow any failure; the
  record is the file \<open>.velocity.json\<close>.
\<close>

definition writeVelocityJson :: "ScaffoldEnv \<Rightarrow> node \<Rightarrow> node" where
  "writeVelocityJson env t =
     (case env_velocityJson env of
        None \<Rightarrow> t
      | Some config \<Rightarrow>
          (case writeFileSync [''.velocity.json''] config t of Inl e \<Rightarrow> t | Inr t' \<Rightarrow> t'))"

text \<open>
  \<open>scaffold\<close>, steps 1 to 6.5, on the tree of the target directory. Steps 7 and 8 start
  \<open>git\<close> and the package manager, programs outside this repository.
\<close>

definition scaffold :: "ScaffoldEnv \<Rightarrow> ScaffoldOptions \<Rightarrow> error + node" where
  "scaffold env options =
     (case env_downloadTemplate env of
        Inl e \<Rightarrow> Inl DownloadFailed
      | Inr downloaded \<Rightarrow>
          andThen (if sel_mode (opt_componentSelection options) \<noteq> ModeAll
                   then applyComponentSelection env (opt_componentSelection options)
                          (removeItems CLEANUP_ITEMS downloaded)
                   else Inr (removeItems CLEANUP_ITEMS downloaded)) (\<lambda>t2.
          andThen (if opt_i18n options then applyI18nOverlay env t2 else Inr t2) (\<lambda>t3.
          andThen (if \<not> opt_demo options
                   then andThen (applyBaseTemplate env (removeItems DEMO_CONTENT t3))
                          createContentDirectories
                   else Inr t3) (\<lambda>t4.
          andThen (if length (opt_pages options) > 0
                   then andThen (generatePages t4 (opt_pages options) (opt_pageLayout options)
                                   (opt_i18n options)) (\<lambda>r. Inr (fst r))
                   else Inr t4) (\<lambda>t5.
          andThen (updatePackageJson env (opt_projectName options) t5) (\<lambda>t6.
          Inr (writeVelocityJson env t6)))))))"

subsection \<open>Vocabulary of the pipeline's properties\<close>

text \<open>
  The names \<open>readdirSync\<close> can return: not empty, not \<open>.\<close> or \<open>..\<close>, without a slash, and
  no name twice in one directory. A tree is well formed when all its directories are.
\<close>

definition entryName :: "string \<Rightarrow> bool" where
  "entryName name = (name \<noteq> [] \<and> name \<noteq> ''.'' \<and> name \<noteq> ''..'' \<and> CHR ''/'' \<notin> set name)"

fun wfNode :: "node \<Rightarrow> bool" and wfEntries :: "(string \<times> node) list \<Rightarrow> bool" where
  "wfNode (File c) = True"
| "wfNode (Dir entries) = (distinct (map fst entries) \<and> wfEntries entries)"
| "wfEntries [] = True"
| "wfEntries ((name, n) # entries) = (entryName name \<and> wfNode n \<and> wfEntries entries)"

text \<open>The project-relative form of a path, as the registry writes its files.\<close>

definition joinPath :: "path \<Rightarrow> string" where
  "joinPath q = joinWith ''/'' q"

text \<open>A path at or below one of the optional component directories.\<close>

definition underOptional :: "path \<Rightarrow> bool" where
  "underOptional q = (\<exists>d \<in> set OPTIONAL_COMPONENT_DIRS. prefix (splitPath d) q)"

text \<open>A path at or below one of the listed items.\<close>

definition underItems :: "string list \<Rightarrow> path \<Rightarrow> bool" where
  "underItems items q = (\<exists>d \<in> set items. prefix (splitPath d) q)"

text \<open>The demo pages among the demo content: its entries below \<open>src/pages\<close>.\<close>

definition demoPages :: "string list" where
  "demoPages = filter (\<lambda>item. startsWith item ''src/pages/'') DEMO_CONTENT"

text \<open>The paths that hold a file.\<close>

definition filesOf :: "node \<Rightarrow> path set" where
  "filesOf t = {q. fileAt q t \<noteq> None}"

text \<open>
  The tree \<open>t'\<close> is \<open>t\<close> with the files of \<open>src\<close> laid over it at \<open>dest\<close>: below \<open>dest\<close> a
  file of \<open>src\<close> wins, every other path holds what it held.
\<close>

definition overlaid :: "node \<Rightarrow> path \<Rightarrow> node \<Rightarrow> node \<Rightarrow> bool" where
  "overlaid src dest t t' =
     ((\<forall>r. fileAt (dest @ r) t' =
            (case fileAt r src of Some c \<Rightarrow> Some c | None \<Rightarrow> fileAt (dest @ r) t)) \<and>
      (\<forall>q. \<not> prefix dest q \<longrightarrow> fileAt q t' = fileAt q t))"

subsection \<open>Sample projects\<close>

definition sampleTemplate :: node where
  "sampleTemplate =
     Dir [(''package.json'', File ''{}''),
          (''pnpm-lock.yaml'', File ''lockfileVersion: 9''),
          (''src'', Dir
             [(''components'', Dir
                 [(''ui'', Dir [(''form'', Dir [(''Button.astro'', File ''button'')]),
                                (''Badge.astro'', File ''badge'')]),
                  (''patterns'', Dir [(''ContactForm.astro'', File ''contact form'')]),
                  (''hero'', Dir [(''Hero.astro'', File ''hero'')]),
                  (''layout'', Dir [(''Header.astro'', File ''header'')])]),
              (''pages'', Dir [(''index.astro'', File ''demo home''),
                               (''about.astro'', File ''demo about'')])])]"

definition sampleI18nOverlay :: node where
  "sampleI18nOverlay =
     Dir [(''src'', Dir
             [(''i18n'', Dir [(''config.ts'', File ''export const locales = []'')]),
              (''pages'', Dir
                 [(''[lang]'', Dir [(''index.astro'', File ''localized home''),
                                    (''[...about].astro'', File ''localized about'')])])])]"

definition sampleRegistry :: ComponentRegistry where
  "sampleRegistry =
     \<lparr>reg_version = ''1.0.0'',
      reg_categories = [(''ui'', \<lparr>cat_name = ''UI'', cat_description = ''Primitives''\<rparr>)],
      reg_utilities = [],
      reg_components =
        [(''button'', mkComponent ''Button'' ''ui'' [''src/components/ui/form/Button.astro''] [] [])]\<rparr>"

text \<open>A rewriting of \<open>package.json\<close> that knows the one text the sample template holds.\<close>

definition sampleRewrite :: "string \<Rightarrow> string \<Rightarrow> string option" where
  \<open>sampleRewrite projectName content =
     (if content = ''{}''
      then Some (''{
  "name": "'' @ projectName @ ''",
  "version": "0.1.0"
}
'')
      else None)\<close>

definition sampleEnv :: ScaffoldEnv where
  "sampleEnv =
     \<lparr>env_downloadTemplate = Inr sampleTemplate,
      env_fetchRegistry = Inr sampleRegistry,
      env_maxDepth = 100,
      env_i18nTemplate = Some sampleI18nOverlay,
      env_baseTemplate = Some (Dir []),
      env_rewritePackageJson = sampleRewrite,
      env_velocityJson = None\<rparr>"



section \<open>Properties of page-name parsing\<close>

lemma replaceInvalid_chars: "\<forall>c \<in> set (replaceInvalid s). isSlugChar c"
  by (auto simp: replaceInvalid_def isSlugChar_def)

lemma collapseHyphens_set: "set (collapseHyphens s) \<subseteq> set s"
  by (induction s rule: collapseHyphens.induct) auto

lemma collapseHyphens_hd: "\<exists>ys. collapseHyphens (y # xs) = y # ys"
  by (induction "y # xs" arbitrary: y xs rule: collapseHyphens.induct) auto

lemma collapseHyphens_noDouble: "\<not> hasDoubleHyphen (collapseHyphens s)"
proof (induction s rule: collapseHyphens.induct)
  case (1 x y xs)
  obtain ys where "collapseHyphens (y # xs) = y # ys"
    using collapseHyphens_hd by blast
  with 1 show ?case by auto
qed auto

lemma hasDoubleHyphen_butlast: "\<not> hasDoubleHyphen s \<Longrightarrow> \<not> hasDoubleHyphen (butlast s)"
  by (induction s rule: hasDoubleHyphen.induct) (auto split: if_splits)

lemma noDouble_Cons: "\<not> hasDoubleHyphen (x # xs) \<Longrightarrow> \<not> hasDoubleHyphen xs"
  by (cases xs) auto

lemma noDouble_hd_tl: "\<not> hasDoubleHyphen (x # xs) \<Longrightarrow> x = CHR ''-'' \<Longrightarrow> xs \<noteq> [] \<Longrightarrow> hd xs \<noteq> CHR ''-''"
  by (cases xs) auto

lemma noDouble_last_butlast:
  "\<not> hasDoubleHyphen s \<Longrightarrow> last s = CHR ''-'' \<Longrightarrow> butlast s \<noteq> [] \<Longrightarrow> last (butlast s) \<noteq> CHR ''-''"
  by (induction s rule: hasDoubleHyphen.induct) (auto split: if_splits)

lemma stripEdgeHyphens_set: "set (stripEdgeHyphens s) \<subseteq> set s"
  by (auto simp: stripEdgeHyphens_def Let_def split: list.splits dest: in_set_butlastD)

lemma stripEdgeHyphens_noDouble:
  assumes "\<not> hasDoubleHyphen s"
  shows "\<not> hasDoubleHyphen (stripEdgeHyphens s)"
proof -
  define s1 where "s1 = (case s of [] \<Rightarrow> [] | x # xs \<Rightarrow> if x = CHR ''-'' then xs else s)"
  have "\<not> hasDoubleHyphen s1"
    using assms by (auto simp: s1_def split: list.splits dest: noDouble_Cons)
  then show ?thesis
    unfolding stripEdgeHyphens_def s1_def[symmetric] Let_def
    by (simp add: hasDoubleHyphen_butlast)
qed

lemma stripEdgeHyphens_edges:
  assumes "\<not> hasDoubleHyphen s" and "stripEdgeHyphens s \<noteq> []"
  shows "hd (stripEdgeHyphens s) \<noteq> CHR ''-'' \<and> last (stripEdgeHyphens s) \<noteq> CHR ''-''"
proof -
  define s1 where "s1 = (case s of [] \<Rightarrow> [] | x # xs \<Rightarrow> if x = CHR ''-'' then xs else s)"
  have nd: "\<not> hasDoubleHyphen s1"
    using assms(1) by (auto simp: s1_def split: list.splits dest: noDouble_Cons)
  have res: "stripEdgeHyphens s = (if s1 \<noteq> [] \<and> last s1 = CHR ''-'' then butlast s1 else s1)"
    unfolding stripEdgeHyphens_def s1_def[symmetric] Let_def by simp
  have h1: "s1 \<noteq> [] \<Longrightarrow> hd s1 \<noteq> CHR ''-''"
    using assms(1) by (auto simp: s1_def split: list.splits if_splits dest: noDouble_hd_tl)
  show ?thesis
  proof (cases "s1 \<noteq> [] \<and> last s1 = CHR ''-''")
    case True
    then have r: "stripEdgeHyphens s = butlast s1" using res by simp
    with assms(2) have ne: "butlast s1 \<noteq> []" by simp
    have "hd (butlast s1) = hd s1" using ne by (cases s1) auto
    moreover have "last (butlast s1) \<noteq> CHR ''-''"
      using nd True ne by (simp add: noDouble_last_butlast)
    ultimately show ?thesis using r h1 True by simp
  next
    case False
    then have r: "stripEdgeHyphens s = s1" using res by auto
    with assms(2) have "s1 \<noteq> []" by simp
    with False h1 r show ?thesis by auto
  qed
qed

lemma sanitizeName_valid:
  assumes "sanitizeName name \<noteq> []" and "sanitizeName name \<notin> set reservedNames"
  shows "validSlug (sanitizeName name)"
proof -
  let ?c = "collapseHyphens (replaceInvalid name)"
  have nd: "\<not> hasDoubleHyphen ?c" by (rule collapseHyphens_noDouble)
  have chars: "\<forall>c \<in> set (sanitizeName name). isLower c \<or> isDigit c \<or> c = CHR ''-''"
    using stripEdgeHyphens_set[of ?c] collapseHyphens_set[of "replaceInvalid name"]
      replaceInvalid_chars[of name]
    unfolding sanitizeName_def isSlugChar_def by blast
  have edges: "hd (sanitizeName name) \<noteq> CHR ''-'' \<and> last (sanitizeName name) \<noteq> CHR ''-''"
    using stripEdgeHyphens_edges[OF nd] assms(1) unfolding sanitizeName_def by simp
  have nd': "\<not> hasDoubleHyphen (sanitizeName name)"
    unfolding sanitizeName_def by (rule stripEdgeHyphens_noDouble[OF nd])
  show ?thesis
    unfolding validSlug_def using assms chars edges nd' by (simp add: reservedNames_def)
qed

text \<open>
  Claim C10. Whatever the input, every page name \<open>parsePageNames\<close> returns is non-empty,
  consists of lowercase letters, digits and hyphens only, neither starts nor ends with a
  hyphen, has no two hyphens in a row, and is none of the reserved names \<open>index\<close>,
  \<open>blog\<close>, \<open>404\<close>, \<open>rss\<close>.
\<close>

theorem parsePageNames_valid: "\<forall>n \<in> set (parsePageNames input). validSlug n"
  by (auto simp: parsePageNames_def sanitizeName_valid)

theorem parsePageNames_valid_witness:
  "set (parsePageNames ''Team Page, index,  FAQ!'') = {''team-page'', ''faq''} \<and>
   validSlug ''team-page'' \<and> validSlug ''faq''"
proof -
  have e: "parsePageNames ''Team Page, index,  FAQ!'' = [''team-page'', ''faq'']"
    by code_simp
  show ?thesis using parsePageNames_valid[of "''Team Page, index,  FAQ!''"] unfolding e by simp
qed

section \<open>Frame properties of the file operations\<close>

lemma andThen_Inl [simp]: "andThen (Inl e) f = Inl e"
  by (simp add: andThen_def)

lemma andThen_Inr [simp]: "andThen (Inr x) f = f x"
  by (simp add: andThen_def)

lemma andThen_eq_Inr: "(andThen r f = Inr y) = (\<exists>x. r = Inr x \<and> f x = Inr y)"
  by (cases r) auto

lemma map_of_update: "map_of (AList.update k v es) k' = (if k' = k then Some v else map_of es k')"
  by (simp add: update_conv')

lemma map_of_delete: "map_of (AList.delete k es) k' = (if k' = k then None else map_of es k')"
  by (simp add: delete_conv')

lemma lookup_File: "lookup p (File c) = (if p = [] then Some (File c) else None)"
  by (cases p) auto

lemma lookup_write_same:
  "writeFileSync p c t = Inr t' \<Longrightarrow> lookup p t' = Some (File c)"
proof (induction p c t arbitrary: t' rule: writeFileSync.induct)
  case (3 s c es)
  then show ?case by (auto simp: map_of_update split: option.splits node.splits)
next
  case (4 s s' p c es)
  then show ?case
    by (auto simp: map_of_update andThen_eq_Inr split: option.splits)
qed auto

lemma lookup_write_other:
  "writeFileSync p c t = Inr t' \<Longrightarrow> \<not> prefix p q \<Longrightarrow> \<not> prefix q p \<Longrightarrow> lookup q t' = lookup q t"
proof (induction p c t arbitrary: t' q rule: writeFileSync.induct)
  case (3 s c es)
  then show ?case
    by (cases q) (auto simp: map_of_update split: option.splits node.splits)
next
  case (4 s s' p c es)
  then show ?case
    by (cases q) (auto simp: map_of_update andThen_eq_Inr split: option.splits)
qed auto

lemma fileAt_Nil: "fileAt [] t = (case t of File c \<Rightarrow> Some c | Dir es \<Rightarrow> None)"
  by (simp add: fileAt_def)

lemma fileAt_Cons_File: "fileAt (s # p) (File c) = None"
  by (simp add: fileAt_def)

lemma fileAt_Cons_Dir:
  "fileAt (s # p) (Dir es) = (case map_of es s of None \<Rightarrow> None | Some ch \<Rightarrow> fileAt p ch)"
  by (simp add: fileAt_def split: option.splits)

lemmas fileAt_simps = fileAt_Nil fileAt_Cons_File fileAt_Cons_Dir

lemma fileAt_File: "fileAt p (File c) = (if p = [] then Some c else None)"
  by (cases p) (auto simp: fileAt_simps)

lemma fileAt_write:
  "writeFileSync p c t = Inr t' \<Longrightarrow> fileAt q t' = (if q = p then Some c else fileAt q t)"
proof (induction p c t arbitrary: t' q rule: writeFileSync.induct)
  case (3 s c es)
  then show ?case
    by (cases q) (auto simp: fileAt_simps fileAt_File map_of_update split: option.splits node.splits if_splits)
next
  case (4 s s' p c es)
  then show ?case
    by (cases q) (auto simp: fileAt_simps map_of_update andThen_eq_Inr split: option.splits)
qed auto

lemma fileAt_empty_Dir: "fileAt p (Dir []) = None"
  by (cases p) (auto simp: fileAt_simps)

lemma lookup_empty_Dir: "lookup p (Dir []) = (if p = [] then Some (Dir []) else None)"
  by (cases p) auto

lemma fileAt_mkdir:
  "mkdirSync p t = Inr t' \<Longrightarrow> fileAt q t' = fileAt q t"
proof (induction p t arbitrary: t' q rule: mkdirSync.induct)
  case (4 s p es)
  then show ?case
    by (cases q) (auto simp: fileAt_simps fileAt_empty_Dir map_of_update andThen_eq_Inr split: option.splits)
qed auto

lemma lookup_mkdir_other:
  "mkdirSync p t = Inr t' \<Longrightarrow> \<not> prefix q p \<Longrightarrow> \<not> prefix p q \<Longrightarrow> lookup q t' = lookup q t"
proof (induction p t arbitrary: t' q rule: mkdirSync.induct)
  case (4 s p es)
  then show ?case
    by (cases q) (auto simp: map_of_update andThen_eq_Inr lookup_empty_Dir split: option.splits)
qed auto

section \<open>Substring search\<close>

lemma startsWith_iff: "startsWith s p = (\<exists>r. s = p @ r)"
  by (induction s p rule: startsWith.induct) auto


lemma indexOf_Some:
  "indexOf s sub = Some i \<Longrightarrow> i \<le> length s \<and> startsWith (drop i s) sub"
  by (induction s sub arbitrary: i rule: indexOf.induct) (auto split: if_splits)

lemma indexOf_None: "indexOf s sub = None \<Longrightarrow> \<not> startsWith (drop i s) sub"
proof (induction s sub arbitrary: i rule: indexOf.induct)
  case (1 sub)
  then show ?case by (cases sub) (auto split: if_splits)
next
  case (2 x xs sub)
  then show ?case by (cases i) (auto split: if_splits)
qed

lemma string_includes_iff: "string_includes s sub = (\<exists>pre post. s = pre @ sub @ post)"
proof
  assume "string_includes s sub"
  then obtain i where i: "indexOf s sub = Some i" by (auto simp: string_includes_def)
  from indexOf_Some[OF i] obtain r where "drop i s = sub @ r"
    by (auto simp: startsWith_iff)
  then have "s = take i s @ sub @ r" by (metis append_take_drop_id)
  then show "\<exists>pre post. s = pre @ sub @ post" by blast
next
  assume "\<exists>pre post. s = pre @ sub @ post"
  then obtain pre post where s: "s = pre @ sub @ post" by blast
  show "string_includes s sub"
  proof (rule ccontr)
    assume "\<not> string_includes s sub"
    then have "indexOf s sub = None" by (simp add: string_includes_def)
    from indexOf_None[OF this, of "length pre"] show False by (simp add: s startsWith_iff)
  qed
qed

lemma string_includes_splice:
  "string_includes mid sub \<Longrightarrow> string_includes (pre @ mid @ post) sub"
  unfolding string_includes_iff
  by (metis append.assoc)

section \<open>The order scan finds the order values of the file\<close>













section \<open>Page generation when the splice is skipped\<close>

lemma existsSync_lookup: "existsSync p t = (lookup p t \<noteq> None)"
  by (simp add: existsSync_def)

lemma readFileSync_File: "lookup p t = Some (File c) \<Longrightarrow> readFileSync p t = Inr c"
  by (simp add: readFileSync_def)

lemma fileAt_lookup: "(fileAt p t = Some c) = (lookup p t = Some (File c))"
  by (auto simp: fileAt_def split: option.splits node.splits)

lemma addBaseRouteEntry_skip:
  "spliceSkipped False [pageName] t \<Longrightarrow> addBaseRouteEntry pageName t = Inr t"
  by (auto simp: spliceSkipped_def routesPath_def addBaseRouteEntry_def existsSync_lookup
        readFileSync_File Let_def split: option.splits node.splits)

lemma addI18nRouteEntry_skip:
  "spliceSkipped True [pageName] t \<Longrightarrow> addI18nRouteEntry pageName t = Inr t"
  by (auto simp: spliceSkipped_def routesPath_def addI18nRouteEntry_def existsSync_lookup
        readFileSync_File Let_def split: option.splits node.splits)

lemma spliceSkipped_cong:
  "lookup (routesPath b) t' = lookup (routesPath b) t \<Longrightarrow> spliceSkipped b pages t' = spliceSkipped b pages t"
  by (simp add: spliceSkipped_def)

lemma spliceSkipped_Cons:
  "spliceSkipped b (p # pages) t \<Longrightarrow> spliceSkipped b [p] t \<and> spliceSkipped b pages t"
  by (auto simp: spliceSkipped_def split: option.splits node.splits)

lemma lookup_routes_write_page:
  "writeFileSync (pagePath p) c t = Inr t' \<Longrightarrow> lookup (routesPath b) t' = lookup (routesPath b) t"
  by (rule lookup_write_other) (auto simp: pagePath_def routesPath_def)

lemma lookup_routes_write_i18nPage:
  "writeFileSync (i18nPagePath p) c t = Inr t' \<Longrightarrow> lookup (routesPath b) t' = lookup (routesPath b) t"
  by (rule lookup_write_other) (auto simp: i18nPagePath_def routesPath_def)

lemma pagePath_inj: "(pagePath p = pagePath q) = (p = q)"
  by (simp add: pagePath_def)

lemma toRouteId_inj_on_slugs:
  "toRouteId p = toRouteId q \<Longrightarrow> CHR ''_'' \<notin> set p \<Longrightarrow> CHR ''_'' \<notin> set q \<Longrightarrow> p = q"
proof (induction p arbitrary: q)
  case Nil
  then show ?case by (simp add: toRouteId_def)
next
  case (Cons a p)
  then obtain b q' where q: "q = b # q'" by (cases q) (auto simp: toRouteId_def)
  with Cons.prems have "a = b" by (auto simp: toRouteId_def split: if_splits)
  moreover have "p = q'" using Cons q by (auto simp: toRouteId_def)
  ultimately show ?case using q by simp
qed

lemma i18nPagePath_eq: "(i18nPagePath p = i18nPagePath q) = (toRouteId p = toRouteId q)"
  by (simp add: i18nPagePath_def)

lemma fileAt_ensureDir: "ensureDir p t = Inr t' \<Longrightarrow> fileAt q t' = fileAt q t"
  by (auto simp: ensureDir_def fileAt_mkdir split: if_splits)

lemma lookup_routes_ensureDir_pages:
  "ensureDir [''src'', ''pages''] t = Inr t' \<Longrightarrow> lookup (routesPath b) t' = lookup (routesPath b) t"
  by (auto simp: ensureDir_def routesPath_def split: if_splits intro!: lookup_mkdir_other)

lemma lookup_routes_ensureDir_lang:
  "ensureDir [''src'', ''pages'', ''[lang]''] t = Inr t' \<Longrightarrow>
   lookup (routesPath b) t' = lookup (routesPath b) t"
  by (auto simp: ensureDir_def routesPath_def split: if_splits intro!: lookup_mkdir_other)

lemma standardPagesLoop_skip:
  assumes "isI18n \<or> spliceSkipped False pages t"
    and "standardPagesLoop pages layout isI18n (t, g) = Inr (t', g')"
  shows "g' = g @ map (\<lambda>p. ''src/pages/'' @ p @ ''.astro'') pages \<and>
         (\<forall>b. lookup (routesPath b) t' = lookup (routesPath b) t) \<and>
         (\<forall>q. q \<notin> pagePath ` set pages \<longrightarrow> fileAt q t' = fileAt q t) \<and>
         (\<forall>p \<in> set pages. fileAt (pagePath p) t' = Some (generatePageTemplate p layout))"
  using assms
proof (induction pages arbitrary: t g)
  case Nil
  then show ?case by simp
next
  case (Cons p pages)
  from Cons.prems(2) obtain t1 t2 where
    w: "writeFileSync (pagePath p) (generatePageTemplate p layout) t = Inr t1" and
    a: "(if \<not> isI18n then addBaseRouteEntry p t1 else Inr t1) = Inr t2" and
    r: "standardPagesLoop pages layout isI18n (t2, g @ [''src/pages/'' @ p @ ''.astro'']) = Inr (t', g')"
    by (auto simp: andThen_eq_Inr pagePath_def)
  have l1: "\<And>b. lookup (routesPath b) t1 = lookup (routesPath b) t"
    using w by (rule lookup_routes_write_page)
  have sk1: "isI18n \<or> spliceSkipped False (p # pages) t1"
    using Cons.prems(1) l1 spliceSkipped_cong[of False t1 t] by auto
  have t2: "t2 = t1"
  proof (cases isI18n)
    case True
    with a show ?thesis by simp
  next
    case False
    with sk1 have "spliceSkipped False [p] t1" by (auto dest: spliceSkipped_Cons)
    with a False show ?thesis by (simp add: addBaseRouteEntry_skip)
  qed
  have sk2: "isI18n \<or> spliceSkipped False pages t1"
    using sk1 by (auto dest: spliceSkipped_Cons)
  note ih = Cons.IH[OF sk2 r[unfolded t2]]
  have f1: "\<And>q. fileAt q t1 = (if q = pagePath p then Some (generatePageTemplate p layout) else fileAt q t)"
    using w by (rule fileAt_write)
  have "fileAt (pagePath p) t' = Some (generatePageTemplate p layout)"
  proof (cases "p \<in> set pages")
    case True
    with ih show ?thesis by blast
  next
    case False
    then have "pagePath p \<notin> pagePath ` set pages" by (auto simp: pagePath_inj)
    with ih have "fileAt (pagePath p) t' = fileAt (pagePath p) t1" by blast
    with f1 show ?thesis by simp
  qed
  moreover have "\<forall>q. q \<notin> pagePath ` set (p # pages) \<longrightarrow> fileAt q t' = fileAt q t"
    using ih f1 by auto
  moreover have "\<forall>b. lookup (routesPath b) t' = lookup (routesPath b) t"
    using ih l1 by simp
  moreover have "g' = g @ map (\<lambda>p. ''src/pages/'' @ p @ ''.astro'') (p # pages)"
    using ih by simp
  ultimately show ?case using ih by simp
qed

lemma i18nPagesLoop_skip:
  assumes "spliceSkipped True pages t"
    and "i18nPagesLoop pages layout (t, g) = Inr (t', g')"
  shows "g' = g @ map (\<lambda>p. ''src/pages/[lang]/[...'' @ toRouteId p @ ''].astro'') pages \<and>
         (\<forall>b. lookup (routesPath b) t' = lookup (routesPath b) t) \<and>
         (\<forall>q. q \<notin> i18nPagePath ` set pages \<longrightarrow> fileAt q t' = fileAt q t) \<and>
         (\<forall>p \<in> set pages. \<exists>p' \<in> set pages. toRouteId p' = toRouteId p \<and>
             fileAt (i18nPagePath p) t' = Some (generateI18nPageTemplate p' layout))"
  using assms
proof (induction pages arbitrary: t g)
  case Nil
  then show ?case by simp
next
  case (Cons p pages)
  from Cons.prems(2) obtain t1 t2 where
    w: "writeFileSync (i18nPagePath p) (generateI18nPageTemplate p layout) t = Inr t1" and
    a: "addI18nRouteEntry p t1 = Inr t2" and
    r: "i18nPagesLoop pages layout (t2, g @ [''src/pages/[lang]/[...'' @ toRouteId p @ ''].astro'']) = Inr (t', g')"
    by (auto simp: andThen_eq_Inr i18nPagePath_def Let_def)
  have l1: "\<And>b. lookup (routesPath b) t1 = lookup (routesPath b) t"
    using w by (rule lookup_routes_write_i18nPage)
  have sk1: "spliceSkipped True (p # pages) t1"
    using Cons.prems(1) l1 spliceSkipped_cong[of True t1 t] by auto
  then have "spliceSkipped True [p] t1" and sk2: "spliceSkipped True pages t1"
    by (auto dest: spliceSkipped_Cons)
  with a have t2: "t2 = t1" by (simp add: addI18nRouteEntry_skip)
  note ih = Cons.IH[OF sk2 r[unfolded t2]]
  have f1: "\<And>q. fileAt q t1 = (if q = i18nPagePath p then Some (generateI18nPageTemplate p layout) else fileAt q t)"
    using w by (rule fileAt_write)
  have hd: "\<exists>p' \<in> set (p # pages). toRouteId p' = toRouteId p \<and>
             fileAt (i18nPagePath p) t' = Some (generateI18nPageTemplate p' layout)"
  proof (cases "i18nPagePath p \<in> i18nPagePath ` set pages")
    case True
    then obtain q where q: "q \<in> set pages" "toRouteId q = toRouteId p"
      by (auto simp: i18nPagePath_eq)
    with ih obtain p' where "p' \<in> set pages" "toRouteId p' = toRouteId q"
      "fileAt (i18nPagePath q) t' = Some (generateI18nPageTemplate p' layout)" by blast
    moreover have "i18nPagePath q = i18nPagePath p" using q by (simp add: i18nPagePath_eq)
    ultimately show ?thesis using q by auto
  next
    case False
    with ih have "fileAt (i18nPagePath p) t' = fileAt (i18nPagePath p) t1" by blast
    with f1 show ?thesis by simp
  qed
  have tl: "\<forall>q \<in> set pages. \<exists>p' \<in> set (p # pages). toRouteId p' = toRouteId q \<and>
             fileAt (i18nPagePath q) t' = Some (generateI18nPageTemplate p' layout)"
    using ih by auto
  have "\<forall>q. q \<notin> i18nPagePath ` set (p # pages) \<longrightarrow> fileAt q t' = fileAt q t"
    using ih f1 by auto
  moreover have "\<forall>b. lookup (routesPath b) t' = lookup (routesPath b) t"
    using ih l1 by simp
  moreover have "g' = g @ map (\<lambda>p. ''src/pages/[lang]/[...'' @ toRouteId p @ ''].astro'') (p # pages)"
    using ih by simp
  ultimately show ?case using hd tl by simp
qed

lemma validSlug_no_underscore:
  assumes "validSlug p"
  shows "CHR ''_'' \<notin> set p"
proof
  assume "CHR ''_'' \<in> set p"
  moreover from assms have "\<forall>c \<in> set p. isLower c \<or> isDigit c \<or> c = CHR ''-''"
    unfolding validSlug_def by blast
  ultimately have "isLower CHR ''_'' \<or> isDigit CHR ''_'' \<or> CHR ''_'' = CHR ''-''" by blast
  then show False by (simp add: isLower_def isDigit_def)
qed

lemma generatePages_Nil: "generatePages t [] layout isI18n = Inr (t, [])"
  by (simp add: generatePages_def)

lemma generatePages_skip:
  assumes sk: "spliceSkipped isI18n pages t"
    and run: "generatePages t pages layout isI18n = Inr (t', gen)"
  shows "gen = generatedNames pages isI18n \<and>
         lookup (routesPath isI18n) t' = lookup (routesPath isI18n) t \<and>
         (\<forall>p \<in> set pages. fileAt (pagePath p) t' = Some (generatePageTemplate p layout)) \<and>
         (isI18n \<longrightarrow> (\<forall>p \<in> set pages. \<exists>p' \<in> set pages. toRouteId p' = toRouteId p \<and>
             fileAt (i18nPagePath p) t' = Some (generateI18nPageTemplate p' layout)))"
proof (cases "pages = []")
  case True
  with run show ?thesis by (simp add: generatePages_def generatedNames_def)
next
  case False
  with run have run': "andThen (ensureDir [''src'', ''pages''] t) (\<lambda>t0.
        andThen (standardPagesLoop pages layout isI18n (t0, [])) (\<lambda>st.
        if isI18n then
          andThen (ensureDir [''src'', ''pages'', ''[lang]''] (fst st)) (\<lambda>t1.
          i18nPagesLoop pages layout (t1, snd st))
        else Inr st)) = Inr (t', gen)"
    by (simp add: generatePages_def)
  then obtain t0 where e0: "ensureDir [''src'', ''pages''] t = Inr t0"
    by (cases "ensureDir [''src'', ''pages''] t") simp_all
  with run' obtain st1 where s1': "standardPagesLoop pages layout isI18n (t0, []) = Inr st1"
    by (cases "standardPagesLoop pages layout isI18n (t0, [])") simp_all
  have rest': "(if isI18n then andThen (ensureDir [''src'', ''pages'', ''[lang]''] (fst st1))
             (\<lambda>t2. i18nPagesLoop pages layout (t2, snd st1)) else Inr st1) = Inr (t', gen)"
    using run' e0 s1' by simp
  obtain t1 g1 where st1: "st1 = (t1, g1)" by (cases st1)
  have s1: "standardPagesLoop pages layout isI18n (t0, []) = Inr (t1, g1)"
    using s1' st1 by simp
  have rest: "(if isI18n then andThen (ensureDir [''src'', ''pages'', ''[lang]''] t1)
             (\<lambda>t2. i18nPagesLoop pages layout (t2, g1)) else Inr (t1, g1)) = Inr (t', gen)"
    using rest'[unfolded st1] by (cases isI18n) simp_all
  have l0: "\<And>b. lookup (routesPath b) t0 = lookup (routesPath b) t"
    using e0 by (rule lookup_routes_ensureDir_pages)
  have sk0: "isI18n \<or> spliceSkipped False pages t0"
    using sk l0 spliceSkipped_cong[of False t0 t] by (cases isI18n) auto
  note st = standardPagesLoop_skip[OF sk0 s1]
  show ?thesis
  proof (cases isI18n)
    case False
    with rest have "t' = t1" "gen = g1" by simp_all
    with st l0 False show ?thesis by (simp add: generatedNames_def)
  next
    case True
    with rest have "andThen (ensureDir [''src'', ''pages'', ''[lang]''] t1)
             (\<lambda>t2. i18nPagesLoop pages layout (t2, g1)) = Inr (t', gen)" by simp
    then obtain t2 where
      e2: "ensureDir [''src'', ''pages'', ''[lang]''] t1 = Inr t2" and
      s2: "i18nPagesLoop pages layout (t2, g1) = Inr (t', gen)"
      unfolding andThen_eq_Inr by blast
    have l2: "\<And>b. lookup (routesPath b) t2 = lookup (routesPath b) t1"
      using e2 by (rule lookup_routes_ensureDir_lang)
    have "lookup (routesPath True) t2 = lookup (routesPath True) t"
      using l2 st l0 by simp
    then have sk2: "spliceSkipped True pages t2"
      using sk True spliceSkipped_cong[of True t2 t] by simp
    note it = i18nPagesLoop_skip[OF sk2 s2]
    have base: "\<forall>p \<in> set pages. fileAt (pagePath p) t' = Some (generatePageTemplate p layout)"
    proof
      fix p assume p: "p \<in> set pages"
      have "pagePath p \<notin> i18nPagePath ` set pages"
        by (auto simp: pagePath_def i18nPagePath_def)
      moreover from it have "\<forall>q. q \<notin> i18nPagePath ` set pages \<longrightarrow> fileAt q t' = fileAt q t2"
        by simp
      ultimately have "fileAt (pagePath p) t' = fileAt (pagePath p) t2" by simp
      also have "\<dots> = fileAt (pagePath p) t1" using e2 by (rule fileAt_ensureDir)
      also have "\<dots> = Some (generatePageTemplate p layout)" using st p by simp
      finally show "fileAt (pagePath p) t' = Some (generatePageTemplate p layout)" .
    qed
    have "lookup (routesPath isI18n) t' = lookup (routesPath isI18n) t"
      using it l2 st l0 by simp
    moreover have "gen = generatedNames pages isI18n"
      using it st True by (simp add: generatedNames_def)
    moreover from it have "\<forall>p \<in> set pages. \<exists>p' \<in> set pages. toRouteId p' = toRouteId p \<and>
             fileAt (i18nPagePath p) t' = Some (generateI18nPageTemplate p' layout)"
      by simp
    ultimately show ?thesis using base by simp
  qed
qed

section \<open>After a splice the route table names the route\<close>

lemma string_includes_intro: "s = pre @ sub @ post \<Longrightarrow> string_includes s sub"
  unfolding string_includes_iff by blast

lemma baseRouteEntry_includes:
  "string_includes (baseRouteEntry pageName routeId navOrder title) (routeId @ '':'')"
  by (rule string_includes_intro[of _ "''\<newline>  // Custom page: '' @ pageName @ ''\<newline>  ''"])
     (simp add: baseRouteEntry_def)

lemma i18nRouteEntry_includes:
  "string_includes (i18nRouteEntry pageName routeId navOrder) (routeId @ '':'')"
  by (rule string_includes_intro[of _ "''\<newline>  // Custom page: '' @ pageName @ ''\<newline>  ''"])
     (simp add: i18nRouteEntry_def)

lemma spliceSkipped_File:
  "lookup (routesPath b) t = Some (File c) \<Longrightarrow>
   list_all (\<lambda>p. string_includes c (toRouteId p @ '':'')) pages \<Longrightarrow> spliceSkipped b pages t"
  by (simp add: spliceSkipped_def)

lemma addBaseRouteEntry_post:
  assumes "addBaseRouteEntry p t = Inr t'"
  shows "spliceSkipped False [p] t'"
proof (cases "lookup (routesPath False) t")
  case None
  with assms have "t' = t"
    by (simp add: addBaseRouteEntry_def existsSync_lookup routesPath_def)
  with None show ?thesis by (simp add: spliceSkipped_def)
next
  case (Some n)
  show ?thesis
  proof (cases n)
    case (Dir es)
    with Some assms show ?thesis
      by (simp add: addBaseRouteEntry_def existsSync_lookup routesPath_def readFileSync_def Let_def)
  next
    case (File c)
    note lk = Some[unfolded File]
    show ?thesis
    proof (cases "string_includes c (toRouteId p @ '':'') \<or> indexOf c routeAnchor = None")
      case True
      then have sk: "spliceSkipped False [p] t" using lk by (auto simp: spliceSkipped_def)
      with assms have "t' = t" by (simp add: addBaseRouteEntry_skip)
      with sk show ?thesis by simp
    next
      case False
      then obtain ip where ip: "indexOf c routeAnchor = Some ip" by auto
      let ?new = "take ip c @ baseRouteEntry p (toRouteId p) (getNextNavOrder c) (toTitle p) @ drop ip c"
      from assms lk False ip have "writeFileSync (routesPath False) ?new t = Inr t'"
        by (simp add: addBaseRouteEntry_def existsSync_lookup routesPath_def readFileSync_def Let_def)
      then have "lookup (routesPath False) t' = Some (File ?new)" by (rule lookup_write_same)
      moreover have "string_includes ?new (toRouteId p @ '':'')"
        by (rule string_includes_splice) (rule baseRouteEntry_includes)
      ultimately show ?thesis by (simp add: spliceSkipped_def)
    qed
  qed
qed

lemma lookup_routes_translationKeys:
  "addI18nTranslationKeysLoop locs routeId title t = Inr t' \<Longrightarrow>
   lookup (routesPath b) t' = lookup (routesPath b) t"
proof (induction locs arbitrary: t)
  case Nil
  then show ?case by simp
next
  case (Cons loc locs)
  let ?tp = "[''src'', ''i18n'', ''translations'', loc @ ''.ts'']"
  show ?case
  proof (cases "existsSync ?tp t")
    case False
    with Cons show ?thesis by (simp add: Let_def)
  next
    case True
    with Cons.prems obtain content t1 where
      w: "writeFileSync ?tp (addPageKeys routeId title (addNavKey routeId title content)) t = Inr t1"
      and r: "addI18nTranslationKeysLoop locs routeId title t1 = Inr t'"
      by (auto simp: Let_def andThen_eq_Inr)
    have "lookup (routesPath b) t1 = lookup (routesPath b) t"
      using w by (rule lookup_write_other) (auto simp: routesPath_def)
    with Cons.IH[OF r] show ?thesis by simp
  qed
qed

lemma addI18nRouteEntry_post:
  assumes "addI18nRouteEntry p t = Inr t'"
  shows "spliceSkipped True [p] t'"
proof (cases "lookup (routesPath True) t")
  case None
  with assms have "t' = t"
    by (simp add: addI18nRouteEntry_def existsSync_lookup routesPath_def)
  with None show ?thesis by (simp add: spliceSkipped_def)
next
  case (Some n)
  show ?thesis
  proof (cases n)
    case (Dir es)
    with Some assms show ?thesis
      by (simp add: addI18nRouteEntry_def existsSync_lookup routesPath_def readFileSync_def Let_def)
  next
    case (File c)
    note lk = Some[unfolded File]
    show ?thesis
    proof (cases "string_includes c (toRouteId p @ '':'') \<or> indexOf c routeAnchor = None")
      case True
      then have sk: "spliceSkipped True [p] t" using lk by (auto simp: spliceSkipped_def)
      with assms have "t' = t" by (simp add: addI18nRouteEntry_skip)
      with sk show ?thesis by simp
    next
      case False
      then obtain ip where ip: "indexOf c routeAnchor = Some ip" by auto
      let ?new = "take ip c @ i18nRouteEntry p (toRouteId p) (getNextNavOrder c) @ drop ip c"
      from assms lk False ip obtain t1 where
        w: "writeFileSync (routesPath True) ?new t = Inr t1" and
        k: "addI18nTranslationKeys (toRouteId p) (toTitle p) t1 = Inr t'"
        by (auto simp: addI18nRouteEntry_def existsSync_lookup routesPath_def readFileSync_def
              Let_def andThen_eq_Inr)
      from w have "lookup (routesPath True) t1 = Some (File ?new)" by (rule lookup_write_same)
      moreover have "lookup (routesPath True) t' = lookup (routesPath True) t1"
        using k unfolding addI18nTranslationKeys_def by (rule lookup_routes_translationKeys)
      moreover have "string_includes ?new (toRouteId p @ '':'')"
        by (rule string_includes_splice) (rule i18nRouteEntry_includes)
      ultimately show ?thesis by (simp add: spliceSkipped_def)
    qed
  qed
qed

lemma generatePages_single_post:
  assumes "generatePages t [p] layout isI18n = Inr (t1, g1)"
  shows "spliceSkipped isI18n [p] t1"
proof -
  from assms have run: "andThen (ensureDir [''src'', ''pages''] t) (\<lambda>t0.
        andThen (standardPagesLoop [p] layout isI18n (t0, [])) (\<lambda>st.
        if isI18n then
          andThen (ensureDir [''src'', ''pages'', ''[lang]''] (fst st)) (\<lambda>t1.
          i18nPagesLoop [p] layout (t1, snd st))
        else Inr st)) = Inr (t1, g1)"
    by (simp add: generatePages_def)
  then obtain t0 where e0: "ensureDir [''src'', ''pages''] t = Inr t0"
    by (cases "ensureDir [''src'', ''pages''] t") simp_all
  with run obtain st where s1: "standardPagesLoop [p] layout isI18n (t0, []) = Inr st"
    by (cases "standardPagesLoop [p] layout isI18n (t0, [])") simp_all
  have rest: "(if isI18n then andThen (ensureDir [''src'', ''pages'', ''[lang]''] (fst st))
             (\<lambda>t2. i18nPagesLoop [p] layout (t2, snd st)) else Inr st) = Inr (t1, g1)"
    using run e0 s1 by simp
  show ?thesis
  proof (cases isI18n)
    case False
    with rest have st: "st = (t1, g1)" by simp
    from s1[unfolded st] False obtain tA where
      "addBaseRouteEntry p tA = Inr t1"
      by (auto simp: andThen_eq_Inr)
    then show ?thesis using False by (simp add: addBaseRouteEntry_post)
  next
    case True
    with rest obtain t2 where
      s2: "i18nPagesLoop [p] layout (t2, snd st) = Inr (t1, g1)"
      by (auto simp: andThen_eq_Inr)
    then obtain tA where "addI18nRouteEntry p tA = Inr t1"
      by (auto simp: andThen_eq_Inr Let_def)
    then show ?thesis using True by (simp add: addI18nRouteEntry_post)
  qed
qed

lemma anchorMissing_skip: "anchorMissing b t \<Longrightarrow> spliceSkipped b pages t"
  by (auto simp: anchorMissing_def spliceSkipped_def string_includes_def
        split: option.splits node.splits)

lemma i18n_unique_template:
  assumes "list_all validSlug pages" and "p \<in> set pages" and "p' \<in> set pages"
    and "toRouteId p' = toRouteId p"
  shows "p' = p"
proof -
  from assms(1,2,3) have "validSlug p" "validSlug p'" by (auto simp: list_all_iff)
  then have u: "CHR ''_'' \<notin> set p'" "CHR ''_'' \<notin> set p"
    by (auto dest: validSlug_no_underscore)
  show ?thesis by (rule toRouteId_inj_on_slugs[OF assms(4) u])
qed

section \<open>The stated properties of page names and route tables\<close>

text \<open>
  Claim C9. The input \<open>"  Contact Us!! "\<close> is sanitized to the slug \<open>contact-us\<close>, whose
  route identifier is \<open>contact_us\<close> and whose title is \<open>Contact Us\<close>; an input that is
  just a reserved word is rejected, and page generation for the resulting empty list
  generates no file and leaves the working tree as it is.
\<close>

theorem slug_sanitation:
  "parsePageNames ''  Contact Us!! '' = [''contact-us''] \<and>
   toRouteId ''contact-us'' = ''contact_us'' \<and>
   toTitle ''contact-us'' = ''Contact Us'' \<and>
   parsePageNames ''index'' = [] \<and> parsePageNames ''blog'' = [] \<and>
   parsePageNames ''404'' = [] \<and> parsePageNames ''rss'' = [] \<and>
   generatePages t (parsePageNames ''index'') layout isI18n = Inr (t, [])"
proof -
  have a: "parsePageNames ''  Contact Us!! '' = [''contact-us'']" by code_simp
  have b: "toRouteId ''contact-us'' = ''contact_us''" by code_simp
  have c: "toTitle ''contact-us'' = ''Contact Us''" by code_simp
  have d: "parsePageNames ''index'' = []" "parsePageNames ''blog'' = []"
    "parsePageNames ''404'' = []" "parsePageNames ''rss'' = []" by code_simp+
  show ?thesis unfolding a b c d by (simp add: generatePages_Nil)
qed



text \<open>
  Claim C2. A route table that already names the route identifier of every requested
  page (the identifier followed by a colon occurs in the file) has the same content after
  page generation; a second run for the same page name never changes the table the
  first run left. For the table holding \<open>about: {order: 10}\<close>, a request for \<open>about\<close>
  leaves it unchanged and a following request for \<open>pricing\<close> adds one \<open>pricing\<close> entry, so
  that \<open>pricing:\<close> and \<open>order: 20\<close> each occur exactly once.
\<close>

theorem route_table_insertion_idempotent:
  "(fileAt (routesPath isI18n) t = Some content \<and>
    list_all (\<lambda>p. string_includes content (toRouteId p @ '':'')) pages \<and>
    generatePages t pages layout isI18n = Inr (t', gen)
      \<longrightarrow> fileAt (routesPath isI18n) t' = Some content) \<and>
   (generatePages t [p] layout isI18n = Inr (t1, g1) \<and>
    generatePages t1 [p] layout isI18n = Inr (t2, g2)
      \<longrightarrow> lookup (routesPath isI18n) t2 = lookup (routesPath isI18n) t1) \<and>
   andThen (generatePages (projectWith routesAbout) [''about''] PageL False) (\<lambda>(u1, h1).
     andThen (generatePages u1 [''pricing''] PageL False) (\<lambda>(u2, h2).
     Inr (fileAt (routesPath False) u1, fileAt (routesPath False) u2)))
   = Inr (Some routesAbout, Some routesAboutPricing) \<and>
   countOccurrences routesAboutPricing ''pricing:'' = 1 \<and>
   countOccurrences routesAboutPricing ''order: 20'' = 1"
proof -
  have one: "fileAt (routesPath isI18n) t' = Some content"
    if f: "fileAt (routesPath isI18n) t = Some content"
      and inc: "list_all (\<lambda>p. string_includes content (toRouteId p @ '':'')) pages"
      and run: "generatePages t pages layout isI18n = Inr (t', gen)"
  proof -
    from f have lk: "lookup (routesPath isI18n) t = Some (File content)"
      by (simp add: fileAt_lookup)
    then have "spliceSkipped isI18n pages t" using inc by (rule spliceSkipped_File)
    from generatePages_skip[OF this run] lk
    have "lookup (routesPath isI18n) t' = Some (File content)" by simp
    then show ?thesis by (simp add: fileAt_lookup)
  qed
  have two: "lookup (routesPath isI18n) t2 = lookup (routesPath isI18n) t1"
    if r1: "generatePages t [p] layout isI18n = Inr (t1, g1)"
      and r2: "generatePages t1 [p] layout isI18n = Inr (t2, g2)"
    using generatePages_skip[OF generatePages_single_post[OF r1] r2] by simp
  have ex: "andThen (generatePages (projectWith routesAbout) [''about''] PageL False) (\<lambda>(u1, h1).
     andThen (generatePages u1 [''pricing''] PageL False) (\<lambda>(u2, h2).
     Inr (fileAt (routesPath False) u1, fileAt (routesPath False) u2)))
   = Inr (Some routesAbout, Some routesAboutPricing)" by code_simp
  have c1: "countOccurrences routesAboutPricing ''pricing:'' = 1" by code_simp
  have c2: "countOccurrences routesAboutPricing ''order: 20'' = 1" by code_simp
  show ?thesis using one two ex c1 c2 by blast
qed

theorem route_table_insertion_idempotent_witness:
  "fileAt (routesPath False) (projectWith routesAbout) = Some routesAbout \<and>
   list_all (\<lambda>p. string_includes routesAbout (toRouteId p @ '':'')) [''about''] \<and>
   (\<exists>t' gen. generatePages (projectWith routesAbout) [''about''] PageL False = Inr (t', gen) \<and>
      fileAt (routesPath False) t' = Some routesAbout) \<and>
   (\<exists>t1 g1 t2 g2. generatePages (projectWith routesAbout) [''pricing''] PageL False = Inr (t1, g1) \<and>
      generatePages t1 [''pricing''] PageL False = Inr (t2, g2) \<and>
      lookup (routesPath False) t2 = lookup (routesPath False) t1)"
proof -
  have h1: "fileAt (routesPath False) (projectWith routesAbout) = Some routesAbout" by code_simp
  have h2: "list_all (\<lambda>p. string_includes routesAbout (toRouteId p @ '':'')) [''about'']"
    by code_simp
  have "case generatePages (projectWith routesAbout) [''about''] PageL False of
          Inl e \<Rightarrow> False | Inr r \<Rightarrow> True"
    by code_simp
  then obtain t' gen where
    run: "generatePages (projectWith routesAbout) [''about''] PageL False = Inr (t', gen)"
    by (cases "generatePages (projectWith routesAbout) [''about''] PageL False") auto
  from route_table_insertion_idempotent[of False "projectWith routesAbout" routesAbout
      "[''about'']" PageL t' gen] h1 h2 run
  have first: "fileAt (routesPath False) t' = Some routesAbout" by blast
  have "case andThen (generatePages (projectWith routesAbout) [''pricing''] PageL False)
               (\<lambda>(u1, h1). generatePages u1 [''pricing''] PageL False) of
          Inl e \<Rightarrow> False | Inr r \<Rightarrow> True"
    by code_simp
  then obtain r where "andThen (generatePages (projectWith routesAbout) [''pricing''] PageL False)
               (\<lambda>(u1, h1). generatePages u1 [''pricing''] PageL False) = Inr r"
    by (cases "andThen (generatePages (projectWith routesAbout) [''pricing''] PageL False)
               (\<lambda>(u1, h1). generatePages u1 [''pricing''] PageL False)") auto
  then obtain t1 g1 t2 g2 where
    r1: "generatePages (projectWith routesAbout) [''pricing''] PageL False = Inr (t1, g1)" and
    r2: "generatePages t1 [''pricing''] PageL False = Inr (t2, g2)"
    unfolding andThen_eq_Inr by (cases r) auto
  from route_table_insertion_idempotent[of False "projectWith routesAbout" routesAbout
      "[''about'']" PageL t' gen "''pricing''" t1 g1 t2 g2] r1 r2
  have second: "lookup (routesPath False) t2 = lookup (routesPath False) t1" by blast
  from h1 h2 run first r1 r2 second show ?thesis by blast
qed

text \<open>
  Claim C8. When the route table of the run is missing, or is a file without the anchor
  \<open>} as const satisfies\<close>, the splice returns without an error and leaves the working tree
  as it is; a run of page generation that completes leaves the route table untouched,
  reports every page path, and has written every page file with its rendered body.
\<close>

theorem missing_anchor_tolerated:
  "(anchorMissing False t \<longrightarrow> addBaseRouteEntry pageName t = Inr t) \<and>
   (anchorMissing True t \<longrightarrow> addI18nRouteEntry pageName t = Inr t) \<and>
   (anchorMissing isI18n t \<and> list_all validSlug pages \<and>
    generatePages t pages layout isI18n = Inr (t', gen) \<longrightarrow>
      lookup (routesPath isI18n) t' = lookup (routesPath isI18n) t \<and>
      gen = generatedNames pages isI18n \<and>
      list_all (\<lambda>p. fileAt (pagePath p) t' = Some (generatePageTemplate p layout)) pages \<and>
      (isI18n \<longrightarrow>
         list_all (\<lambda>p. fileAt (i18nPagePath p) t' = Some (generateI18nPageTemplate p layout)) pages))"
proof -
  have a: "addBaseRouteEntry pageName t = Inr t" if "anchorMissing False t"
    using that by (intro addBaseRouteEntry_skip anchorMissing_skip)
  have b: "addI18nRouteEntry pageName t = Inr t" if "anchorMissing True t"
    using that by (intro addI18nRouteEntry_skip anchorMissing_skip)
  have c: "lookup (routesPath isI18n) t' = lookup (routesPath isI18n) t \<and>
      gen = generatedNames pages isI18n \<and>
      list_all (\<lambda>p. fileAt (pagePath p) t' = Some (generatePageTemplate p layout)) pages \<and>
      (isI18n \<longrightarrow>
         list_all (\<lambda>p. fileAt (i18nPagePath p) t' = Some (generateI18nPageTemplate p layout)) pages)"
    if am: "anchorMissing isI18n t" and vs: "list_all validSlug pages"
      and run: "generatePages t pages layout isI18n = Inr (t', gen)"
  proof -
    note g = generatePages_skip[OF anchorMissing_skip[OF am] run]
    have "fileAt (i18nPagePath p) t' = Some (generateI18nPageTemplate p layout)"
      if i: isI18n and p: "p \<in> set pages" for p
    proof -
      from g i p obtain p' where p': "p' \<in> set pages" "toRouteId p' = toRouteId p"
        "fileAt (i18nPagePath p) t' = Some (generateI18nPageTemplate p' layout)" by blast
      from i18n_unique_template[OF vs p p'(1) p'(2)] p'(3) show ?thesis by simp
    qed
    then show ?thesis using g by (simp add: list_all_iff)
  qed
  from a b c show ?thesis by blast
qed

theorem missing_anchor_tolerated_witness:
  "anchorMissing False (projectWith routesNoAnchor) \<and>
   addBaseRouteEntry ''pricing'' (projectWith routesNoAnchor) = Inr (projectWith routesNoAnchor) \<and>
   anchorMissing True (projectWith routesAbout) \<and>
   addI18nRouteEntry ''pricing'' (projectWith routesAbout) = Inr (projectWith routesAbout) \<and>
   list_all validSlug [''pricing''] \<and>
   (\<exists>t' gen. generatePages (projectWith routesAbout) [''pricing''] LandingL True = Inr (t', gen) \<and>
      lookup (routesPath True) t' = None \<and>
      gen = [''src/pages/pricing.astro'', ''src/pages/[lang]/[...pricing].astro''] \<and>
      fileAt (pagePath ''pricing'') t' = Some (generatePageTemplate ''pricing'' LandingL) \<and>
      fileAt (i18nPagePath ''pricing'') t' = Some (generateI18nPageTemplate ''pricing'' LandingL))"
proof -
  have h1: "anchorMissing False (projectWith routesNoAnchor)" by code_simp
  have h2: "anchorMissing True (projectWith routesAbout)" by code_simp
  have h3: "list_all validSlug [''pricing'']" by code_simp
  have l0: "lookup (routesPath True) (projectWith routesAbout) = None" by code_simp
  have gn: "generatedNames [''pricing''] True
              = [''src/pages/pricing.astro'', ''src/pages/[lang]/[...pricing].astro'']"
    by code_simp
  have "case generatePages (projectWith routesAbout) [''pricing''] LandingL True of
          Inl e \<Rightarrow> False | Inr r \<Rightarrow> True"
    by code_simp
  then obtain t' gen where
    run: "generatePages (projectWith routesAbout) [''pricing''] LandingL True = Inr (t', gen)"
    by (cases "generatePages (projectWith routesAbout) [''pricing''] LandingL True") auto
  note th1 = missing_anchor_tolerated[of "projectWith routesNoAnchor" "''pricing''" True
      "[''pricing'']" LandingL t' gen]
  note th2 = missing_anchor_tolerated[of "projectWith routesAbout" "''pricing''" True
      "[''pricing'']" LandingL t' gen]
  from th1 h1 have a: "addBaseRouteEntry ''pricing'' (projectWith routesNoAnchor)
      = Inr (projectWith routesNoAnchor)" by blast
  from th2 h2 have b: "addI18nRouteEntry ''pricing'' (projectWith routesAbout)
      = Inr (projectWith routesAbout)" by blast
  from th2 h2 h3 run have c:
    "lookup (routesPath True) t' = lookup (routesPath True) (projectWith routesAbout)"
    "gen = generatedNames [''pricing''] True"
    "list_all (\<lambda>p. fileAt (pagePath p) t' = Some (generatePageTemplate p LandingL)) [''pricing'']"
    "list_all (\<lambda>p. fileAt (i18nPagePath p) t' = Some (generateI18nPageTemplate p LandingL)) [''pricing'']"
    by blast+
  from c(3) have c3: "fileAt (pagePath ''pricing'') t' = Some (generatePageTemplate ''pricing'' LandingL)"
    by simp
  from c(4) have c4: "fileAt (i18nPagePath ''pricing'') t' = Some (generateI18nPageTemplate ''pricing'' LandingL)"
    by simp
  from h1 a h2 b h3 run c(1)[unfolded l0] c(2)[unfolded gn] c3 c4 show ?thesis by blast
qed

section \<open>Properties of the dependency resolver\<close>
























section \<open>The stated properties of the resolver\<close>






section \<open>Frame lemmas of the pipeline\<close>

lemma split_not_Nil: "split c xs \<noteq> []"
  by (induction xs) (auto split: list.splits)

lemma split_no_sep: "c \<notin> set n \<Longrightarrow> split c n = [n]"
  by (induction n) (auto split: list.splits)

lemma split_append_sep: "split c (b @ c # x) = split c b @ split c x"
proof (induction b)
  case Nil
  show ?case using split_not_Nil[of c x] by (simp split: list.splits)
next
  case (Cons a b)
  then show ?case using split_not_Nil[of c b] split_not_Nil[of c x]
    by (cases "split c b") (auto split: list.splits)
qed

lemma splitPath_not_Nil: "splitPath d \<noteq> []"
  by (simp add: splitPath_def split_not_Nil)

lemma joinWith_Cons: "r \<noteq> [] \<Longrightarrow> joinWith sep (n # r) = n @ sep @ joinWith sep r"
  by (cases r) simp_all

lemma joinWith_append:
  "p \<noteq> [] \<Longrightarrow> r \<noteq> [] \<Longrightarrow> joinWith sep (p @ r) = joinWith sep p @ sep @ joinWith sep r"
proof (induction p)
  case Nil
  then show ?case by simp
next
  case (Cons a p)
  show ?case
  proof (cases "p = []")
    case True
    with Cons.prems show ?thesis by (simp add: joinWith_Cons)
  next
    case False
    with Cons show ?thesis by (simp add: joinWith_Cons)
  qed
qed

lemma split_join:
  "r \<noteq> [] \<Longrightarrow> \<forall>n \<in> set r. CHR ''/'' \<notin> set n \<Longrightarrow> split CHR ''/'' (joinWith ''/'' r) = r"
proof (induction r)
  case Nil
  then show ?case by simp
next
  case (Cons n r)
  show ?case
  proof (cases "r = []")
    case True
    with Cons.prems show ?thesis by (simp add: split_no_sep)
  next
    case False
    have "split CHR ''/'' (n @ CHR ''/'' # joinWith ''/'' r) =
          split CHR ''/'' n @ split CHR ''/'' (joinWith ''/'' r)"
      by (rule split_append_sep)
    with False Cons show ?thesis by (simp add: joinWith_Cons split_no_sep)
  qed
qed

lemma join_split: "joinWith [c] (split c s) = s"
proof (induction s)
  case Nil
  show ?case by simp
next
  case (Cons x s)
  show ?case
  proof (cases "split c s")
    case Nil
    with split_not_Nil[of c s] show ?thesis by simp
  next
    case (Cons p ps)
    with Cons.IH show ?thesis by (cases ps) (auto simp: joinWith_Cons)
  qed
qed

lemma lookup_append:
  "lookup (p @ r) t = (case lookup p t of None \<Rightarrow> None | Some n \<Rightarrow> lookup r n)"
proof (induction p t rule: lookup.induct)
  case (1 n)
  show ?case by simp
next
  case (2 s p c)
  show ?case by simp
next
  case (3 s p es)
  then show ?case by (simp split: option.splits)
qed

lemma fileAt_append:
  "fileAt (p @ r) t = (case lookup p t of None \<Rightarrow> None | Some n \<Rightarrow> fileAt r n)"
  by (simp add: fileAt_def lookup_append split: option.splits)

lemma fileAt_rmFile:
  "p \<noteq> [] \<Longrightarrow> fileAt q (rmFile p t) = (if q = p then None else fileAt q t)"
proof (induction p t arbitrary: q rule: rmFile.induct)
  case (1 n)
  then show ?case by simp
next
  case (2 s p c)
  then show ?case by (cases q) (simp_all add: fileAt_simps)
next
  case (3 s es)
  show ?case
    by (cases q) (auto simp: fileAt_simps map_of_delete fileAt_File split: option.splits node.splits)
next
  case (4 s s' p es)
  show ?case
  proof (cases "map_of es s")
    case None
    then show ?thesis by (cases q) (auto simp: fileAt_simps)
  next
    case (Some ch)
    with 4 show ?thesis
      by (cases q) (auto simp: fileAt_simps map_of_update)
  qed
qed

lemma fileAt_rmRecursive:
  "p \<noteq> [] \<Longrightarrow> fileAt q (rmRecursive p t) = (if prefix p q then None else fileAt q t)"
proof (induction p t arbitrary: q rule: rmRecursive.induct)
  case (1 n)
  then show ?case by simp
next
  case (2 s p c)
  then show ?case by (cases q) (simp_all add: fileAt_simps)
next
  case (3 s es)
  show ?case
    by (cases q) (auto simp: fileAt_simps map_of_delete)
next
  case (4 s s' p es)
  show ?case
  proof (cases "map_of es s")
    case None
    then show ?thesis by (cases q) (auto simp: fileAt_simps)
  next
    case (Some ch)
    with 4 show ?thesis
      by (cases q) (auto simp: fileAt_simps map_of_update)
  qed
qed

lemma fileAt_below_missing:
  "lookup p t = None \<Longrightarrow> prefix p q \<Longrightarrow> fileAt q t = None"
  by (auto simp: prefix_def fileAt_append)

lemma fileAt_removeItems:
  "fileAt q (removeItems items t) = (if underItems items q then None else fileAt q t)"
proof (induction items arbitrary: t)
  case Nil
  show ?case by (simp add: underItems_def)
next
  case (Cons item items)
  show ?case
  proof (cases "existsSync (splitPath item) t")
    case True
    then show ?thesis
      by (simp add: Cons.IH underItems_def fileAt_rmRecursive splitPath_not_Nil)
  next
    case False
    then have "lookup (splitPath item) t = None" by (simp add: existsSync_def)
    from fileAt_below_missing[OF this] False show ?thesis
      by (auto simp: Cons.IH underItems_def)
  qed
qed

lemma walkEntries_shape:
  "s \<in> set (walkEntries es b) \<Longrightarrow> wfEntries es \<Longrightarrow>
   \<exists>r. r \<noteq> [] \<and> (\<forall>n \<in> set r. CHR ''/'' \<notin> set n) \<and> s = b @ ''/'' @ joinWith ''/'' r"
proof (induction es b arbitrary: s rule: walkEntries.induct)
  case (1 relativeBase)
  then show ?case by simp
next
  case (2 name c entries relativeBase)
  show ?case
  proof (cases "s = relativeBase @ ''/'' @ name")
    case True
    with 2(3) have "[name] \<noteq> [] \<and> (\<forall>n \<in> set [name]. CHR ''/'' \<notin> set n) \<and>
        s = relativeBase @ ''/'' @ joinWith ''/'' [name]"
      by (simp add: entryName_def)
    then show ?thesis by blast
  next
    case False
    with 2 show ?thesis by simp
  qed
next
  case (3 name sub entries relativeBase)
  show ?case
  proof (cases "s \<in> set (walkEntries sub (relativeBase @ ''/'' @ name))")
    case True
    from 3(1)[OF True] 3(4) obtain r where r: "r \<noteq> []" "\<forall>n \<in> set r. CHR ''/'' \<notin> set n"
      "s = (relativeBase @ ''/'' @ name) @ ''/'' @ joinWith ''/'' r" by auto
    from r 3(4) have "name # r \<noteq> [] \<and> (\<forall>n \<in> set (name # r). CHR ''/'' \<notin> set n) \<and>
        s = relativeBase @ ''/'' @ joinWith ''/'' (name # r)"
      by (simp add: joinWith_Cons entryName_def)
    then show ?thesis by blast
  next
    case False
    with 3 show ?thesis by simp
  qed
qed

lemma walkEntries_complete:
  "fileAt r (Dir es) \<noteq> None \<Longrightarrow> b @ ''/'' @ joinWith ''/'' r \<in> set (walkEntries es b)"
proof (induction es b arbitrary: r rule: walkEntries.induct)
  case (1 relativeBase)
  then show ?case by (simp add: fileAt_empty_Dir)
next
  case (2 name c entries relativeBase)
  show ?case
  proof (cases r)
    case Nil
    with 2 show ?thesis by (simp add: fileAt_simps)
  next
    case (Cons n r')
    show ?thesis
    proof (cases "n = name")
      case True
      with 2(2) Cons have "r' = []" by (simp add: fileAt_simps fileAt_File split: if_splits)
      with True Cons show ?thesis by simp
    next
      case False
      with 2(2) Cons have "fileAt r (Dir entries) \<noteq> None" by (simp add: fileAt_simps)
      from 2(1)[OF this] show ?thesis by simp
    qed
  qed
next
  case (3 name sub entries relativeBase)
  show ?case
  proof (cases r)
    case Nil
    with 3 show ?thesis by (simp add: fileAt_simps)
  next
    case (Cons n r')
    show ?thesis
    proof (cases "n = name")
      case True
      with 3(3) Cons have f: "fileAt r' (Dir sub) \<noteq> None" by (simp add: fileAt_simps)
      then have "r' \<noteq> []" by (auto simp: fileAt_simps)
      with 3(1)[OF f] True Cons show ?thesis by (simp add: joinWith_Cons)
    next
      case False
      with 3(3) Cons have "fileAt r (Dir entries) \<noteq> None" by (simp add: fileAt_simps)
      from 3(2)[OF this] show ?thesis by simp
    qed
  qed
qed

lemma wfEntries_iff: "wfEntries es = (\<forall>(name, n) \<in> set es. entryName name \<and> wfNode n)"
  by (induction es) auto

lemma wfNode_Dir: "wfNode (Dir es) = (distinct (map fst es) \<and> (\<forall>(name, n) \<in> set es. entryName name \<and> wfNode n))"
  by (simp add: wfEntries_iff)

lemma wfNode_lookup: "wfNode t \<Longrightarrow> lookup p t = Some n \<Longrightarrow> wfNode n"
proof (induction p t rule: lookup.induct)
  case (1 n)
  then show ?case by simp
next
  case (2 s p c)
  then show ?case by simp
next
  case (3 s p es)
  from 3(3) obtain ch where ch: "map_of es s = Some ch" and l: "lookup p ch = Some n"
    by (auto split: option.splits)
  from ch have "(s, ch) \<in> set es" by (rule map_of_SomeD)
  with 3(2) have "wfNode ch" by (auto simp: wfEntries_iff)
  from 3(1)[OF ch this l] show ?case .
qed

lemma wfNode_names: "wfNode t \<Longrightarrow> lookup p t = Some n \<Longrightarrow> \<forall>s \<in> set p. entryName s"
proof (induction p t rule: lookup.induct)
  case (1 n)
  then show ?case by simp
next
  case (2 s p c)
  then show ?case by simp
next
  case (3 s p es)
  from 3(3) obtain ch where ch: "map_of es s = Some ch" and l: "lookup p ch = Some n"
    by (auto split: option.splits)
  from ch have "(s, ch) \<in> set es" by (rule map_of_SomeD)
  with 3(2) have "wfNode ch" "entryName s" by (auto simp: wfEntries_iff)
  with 3(1)[OF ch this(1) l] show ?case by simp
qed

lemma wfEntries_update:
  "wfEntries es \<Longrightarrow> wfNode n \<Longrightarrow> entryName s \<Longrightarrow> wfEntries (AList.update s n es)"
  by (induction es) auto

lemma wfEntries_delete: "wfEntries es \<Longrightarrow> wfEntries (AList.delete s es)"
  by (induction es) auto

lemma wfNode_update:
  "wfNode (Dir es) \<Longrightarrow> wfNode n \<Longrightarrow> entryName s \<Longrightarrow> wfNode (Dir (AList.update s n es))"
  by (simp add: distinct_update wfEntries_update)

lemma wfNode_delete: "wfNode (Dir es) \<Longrightarrow> wfNode (Dir (AList.delete s es))"
  by (simp add: distinct_delete wfEntries_delete)

lemma wfNode_map_of: "wfNode (Dir es) \<Longrightarrow> map_of es s = Some ch \<Longrightarrow> wfNode ch \<and> entryName s"
  by (auto simp: wfEntries_iff dest!: map_of_SomeD)

lemma wfNode_rmFile: "wfNode t \<Longrightarrow> wfNode (rmFile p t)"
proof (induction p t rule: rmFile.induct)
  case (1 n)
  then show ?case by simp
next
  case (2 s p c)
  then show ?case by simp
next
  case (3 s es)
  then show ?case
    by (auto simp: distinct_delete wfEntries_delete split: option.splits node.splits)
next
  case (4 s s' p es)
  show ?case
  proof (cases "map_of es s")
    case None
    with 4(2) show ?thesis by simp
  next
    case (Some ch)
    from wfNode_map_of[OF 4(2) Some] have w: "wfNode ch" "entryName s" by simp_all
    from 4(1)[OF Some w(1)] have "wfNode (rmFile (s' # p) ch)" .
    from wfNode_update[OF 4(2) this w(2)] Some show ?thesis by simp
  qed
qed

lemma fileAt_removeUnkept:
  "fileAt q (removeUnkept keep ws t) =
     (if \<exists>s \<in> set ws. s \<notin> set keep \<and> splitPath s = q then None else fileAt q t)"
proof (induction ws arbitrary: t)
  case Nil
  show ?case by simp
next
  case (Cons w ws)
  show ?case
    by (auto simp: Cons.IH fileAt_rmFile splitPath_not_Nil)
qed

lemma wfNode_removeUnkept: "wfNode t \<Longrightarrow> wfNode (removeUnkept keep ws t)"
  by (induction ws arbitrary: t) (simp_all add: wfNode_rmFile)

lemma prune_props:
  "(wfNode n \<longrightarrow>
      (case removeEmptyDirsNode n of
         None \<Rightarrow> (\<forall>r. fileAt r n = None)
       | Some n' \<Rightarrow> wfNode n' \<and> (\<forall>r. fileAt r n' = fileAt r n)))"
  "(wfEntries es \<longrightarrow>
      wfEntries (pruneEntries es) \<and>
      set (map fst (pruneEntries es)) \<subseteq> set (map fst es) \<and>
      (distinct (map fst es) \<longrightarrow>
         distinct (map fst (pruneEntries es)) \<and>
         (\<forall>r. fileAt r (Dir (pruneEntries es)) = fileAt r (Dir es))))"
proof (induction n and es rule: removeEmptyDirsNode_pruneEntries.induct)
  case (1 c)
  show ?case by simp
next
  case (2 entries)
  show ?case
  proof
    assume w: "wfNode (Dir entries)"
    with 2 have p: "wfEntries (pruneEntries entries)" "distinct (map fst (pruneEntries entries))"
      "\<forall>r. fileAt r (Dir (pruneEntries entries)) = fileAt r (Dir entries)" by simp_all
    show "case removeEmptyDirsNode (Dir entries) of
         None \<Rightarrow> (\<forall>r. fileAt r (Dir entries) = None)
       | Some n' \<Rightarrow> wfNode n' \<and> (\<forall>r. fileAt r n' = fileAt r (Dir entries))"
    proof (cases "pruneEntries entries = []")
      case True
      with p(3) have "\<forall>r. fileAt r (Dir entries) = None" by (simp add: fileAt_empty_Dir)
      with True show ?thesis by simp
    next
      case False
      with p show ?thesis by simp
    qed
  qed
next
  case 3
  show ?case by simp
next
  case (4 name c entries)
  show ?case
  proof (intro impI conjI)
    assume w: "wfEntries ((name, File c) # entries)"
    with 4 have p: "wfEntries (pruneEntries entries)"
      "set (map fst (pruneEntries entries)) \<subseteq> set (map fst entries)" by simp_all
    from w p show "wfEntries (pruneEntries ((name, File c) # entries))" by simp
    from p show "set (map fst (pruneEntries ((name, File c) # entries)))
        \<subseteq> set (map fst ((name, File c) # entries))" by auto
    assume d: "distinct (map fst ((name, File c) # entries))"
    with 4 w have q: "distinct (map fst (pruneEntries entries))"
      "\<forall>r. fileAt r (Dir (pruneEntries entries)) = fileAt r (Dir entries)" by simp_all
    from d p(2) q(1) show "distinct (map fst (pruneEntries ((name, File c) # entries)))" by auto
    show "\<forall>r. fileAt r (Dir (pruneEntries ((name, File c) # entries))) =
               fileAt r (Dir ((name, File c) # entries))"
    proof
      fix r
      show "fileAt r (Dir (pruneEntries ((name, File c) # entries))) =
               fileAt r (Dir ((name, File c) # entries))"
      proof (cases r)
        case Nil
        then show ?thesis by (simp add: fileAt_simps)
      next
        case (Cons s r')
        from q(2) have "fileAt (s # r') (Dir (pruneEntries entries)) = fileAt (s # r') (Dir entries)"
          by blast
        with Cons show ?thesis by (simp add: fileAt_simps)
      qed
    qed
  qed
next
  case (5 name sub entries)
  show ?case
  proof (intro impI conjI)
    assume w: "wfEntries ((name, Dir sub) # entries)"
    then have ws: "wfNode (Dir sub)" and we: "wfEntries entries" and en: "entryName name" by simp_all
    from 5(1) ws have s: "case removeEmptyDirsNode (Dir sub) of
         None \<Rightarrow> (\<forall>r. fileAt r (Dir sub) = None)
       | Some n' \<Rightarrow> wfNode n' \<and> (\<forall>r. fileAt r n' = fileAt r (Dir sub))" by blast
    have p: "wfEntries (pruneEntries entries)"
      "set (map fst (pruneEntries entries)) \<subseteq> set (map fst entries)"
      using 5(2,3) we by (cases "removeEmptyDirsNode (Dir sub)"; simp)+
    from s p en show "wfEntries (pruneEntries ((name, Dir sub) # entries))"
      by (cases "removeEmptyDirsNode (Dir sub)") simp_all
    from p show "set (map fst (pruneEntries ((name, Dir sub) # entries)))
        \<subseteq> set (map fst ((name, Dir sub) # entries))"
      by (cases "removeEmptyDirsNode (Dir sub)") auto
    assume d: "distinct (map fst ((name, Dir sub) # entries))"
    have q: "distinct (map fst (pruneEntries entries))"
      "\<forall>r. fileAt r (Dir (pruneEntries entries)) = fileAt r (Dir entries)"
      using 5(2,3) we d by (cases "removeEmptyDirsNode (Dir sub)"; simp)+
    from d p(2) q(1) show "distinct (map fst (pruneEntries ((name, Dir sub) # entries)))"
      by (cases "removeEmptyDirsNode (Dir sub)") auto
    from d p(2) have notin: "name \<notin> set (map fst (pruneEntries entries))" by auto
    then have none: "map_of (pruneEntries entries) name = None"
      by (simp add: map_of_eq_None_iff)
    from d have none': "map_of entries name = None" by (simp add: map_of_eq_None_iff)
    show "\<forall>r. fileAt r (Dir (pruneEntries ((name, Dir sub) # entries))) =
               fileAt r (Dir ((name, Dir sub) # entries))"
    proof
      fix r
      show "fileAt r (Dir (pruneEntries ((name, Dir sub) # entries))) =
               fileAt r (Dir ((name, Dir sub) # entries))"
      proof (cases r)
        case Nil
        then show ?thesis by (simp add: fileAt_simps)
      next
        case (Cons s' r')
        from q(2) have e: "fileAt (s' # r') (Dir (pruneEntries entries)) = fileAt (s' # r') (Dir entries)"
          by blast
        show ?thesis
        proof (cases "removeEmptyDirsNode (Dir sub)")
          case None
          with s have "fileAt r' (Dir sub) = None" by simp
          with None Cons e none none' show ?thesis
            by (auto simp: fileAt_simps)
        next
          case (Some n')
          with s have "fileAt r' n' = fileAt r' (Dir sub)" by simp
          with Some Cons e show ?thesis
            by (auto simp: fileAt_simps)
        qed
      qed
    qed
  qed
qed

lemma fileAt_replaceAt_Some:
  "lookup p t = Some n \<Longrightarrow>
   fileAt q (replaceAt p (Some n') t) =
     (if prefix p q then fileAt (drop (length p) q) n' else fileAt q t)"
proof (induction p "Some n'" t arbitrary: q rule: replaceAt.induct)
  case (1 n)
  show ?case by simp
next
  case (2 s p c)
  then show ?case by simp
next
  case (3 s es)
  show ?case by (cases q) (auto simp: fileAt_simps map_of_update)
next
  case (4 s s' p es)
  from 4(2) obtain ch where ch: "map_of es s = Some ch" and l: "lookup (s' # p) ch = Some n"
    by (auto split: option.splits)
  from 4(1)[OF ch l] ch show ?case
    by (cases q) (auto simp: fileAt_simps map_of_update)
qed

lemma fileAt_replaceAt_None:
  "lookup p t = Some n \<Longrightarrow> p \<noteq> [] \<Longrightarrow>
   fileAt q (replaceAt p None t) = (if prefix p q then None else fileAt q t)"
proof (induction p "None :: node option" t arbitrary: q rule: replaceAt.induct)
  case (1 n)
  then show ?case by simp
next
  case (2 s p c)
  then show ?case by simp
next
  case (3 s es)
  show ?case by (cases q) (auto simp: fileAt_simps map_of_delete)
next
  case (4 s s' p es)
  from 4(2) obtain ch where ch: "map_of es s = Some ch" and l: "lookup (s' # p) ch = Some n"
    by (auto split: option.splits)
  from 4(1)[OF ch l] ch show ?case
    by (cases q) (auto simp: fileAt_simps map_of_update)
qed

lemma wfNode_replaceAt:
  "wfNode t \<Longrightarrow> lookup p t = Some n \<Longrightarrow> (\<forall>n'. r = Some n' \<longrightarrow> wfNode n') \<Longrightarrow>
   wfNode (replaceAt p r t)"
proof (induction p r t rule: replaceAt.induct)
  case (1 r n)
  then show ?case by (cases r) simp_all
next
  case (2 s p r c)
  then show ?case by simp
next
  case (3 s r es)
  from 3(2) obtain ch where ch: "map_of es s = Some ch" by (auto split: option.splits)
  from wfNode_map_of[OF 3(1) ch] have en: "entryName s" by simp
  show ?case
  proof (cases r)
    case None
    with wfNode_delete[OF 3(1)] show ?thesis by simp
  next
    case (Some n')
    with 3(3) have "wfNode n'" by simp
    from wfNode_update[OF 3(1) this en] Some show ?thesis by simp
  qed
next
  case (4 s s' p r es)
  from 4(3) obtain ch where ch: "map_of es s = Some ch" and l: "lookup (s' # p) ch = Some n"
    by (auto split: option.splits)
  from wfNode_map_of[OF 4(2) ch] have w: "wfNode ch" "entryName s" by simp_all
  from 4(1)[OF ch w(1) l 4(4)] have "wfNode (replaceAt (s' # p) r ch)" .
  from wfNode_update[OF 4(2) this w(2)] ch show ?case by simp
qed

lemma removeEmptyDirs_frame:
  assumes w: "wfNode t" and p: "p \<noteq> []"
  shows "wfNode (removeEmptyDirs p t) \<and> fileAt q (removeEmptyDirs p t) = fileAt q t"
proof (cases "lookup p t")
  case None
  with w show ?thesis by (simp add: removeEmptyDirs_def)
next
  case (Some n)
  from wfNode_lookup[OF w Some] have wn: "wfNode n" .
  have below: "fileAt q t = fileAt (drop (length p) q) n" if "prefix p q"
    using that Some by (auto simp: prefix_def fileAt_append)
  show ?thesis
  proof (cases "removeEmptyDirsNode n")
    case None
    with prune_props(1)[of n] wn have e: "\<forall>r. fileAt r n = None" by simp
    have "wfNode (replaceAt p None t)" by (rule wfNode_replaceAt[OF w Some]) simp
    moreover have "fileAt q (replaceAt p None t) = fileAt q t"
      using fileAt_replaceAt_None[OF Some p, of q] below e by simp
    ultimately show ?thesis using Some None by (simp add: removeEmptyDirs_def)
  next
    case (Some n')
    with prune_props(1)[of n] wn have e: "wfNode n'" "\<forall>r. fileAt r n' = fileAt r n" by simp_all
    have "wfNode (replaceAt p (Some n') t)"
      by (rule wfNode_replaceAt[OF w \<open>lookup p t = Some n\<close>]) (simp add: e)
    moreover have "fileAt q (replaceAt p (Some n') t) = fileAt q t"
      using fileAt_replaceAt_Some[OF \<open>lookup p t = Some n\<close>, of q n'] below e by simp
    ultimately show ?thesis using \<open>lookup p t = Some n\<close> Some by (simp add: removeEmptyDirs_def)
  qed
qed

lemma fileAt_lookup_File: "(fileAt q t = Some c) = (lookup q t = Some (File c))"
  by (auto simp: fileAt_def split: option.splits node.splits)

lemma fileAt_filter_dir:
  assumes w: "wfNode t" and l: "lookup (splitPath d) t = Some (Dir es)"
  shows "fileAt q (removeUnkept keep (walkEntries es d) t) =
           (if prefix (splitPath d) q \<and> joinPath q \<notin> set keep then None else fileAt q t)"
proof (cases "fileAt q t")
  case None
  then show ?thesis by (simp add: fileAt_removeUnkept)
next
  case (Some c)
  then have lq: "lookup q t = Some (File c)" by (simp add: fileAt_lookup_File)
  from wfNode_names[OF w lq] have names: "\<forall>n \<in> set q. CHR ''/'' \<notin> set n"
    by (simp add: entryName_def)
  have tdir: "q \<noteq> []"
  proof
    assume "q = []"
    with lq have "t = File c" by simp
    with l splitPath_not_Nil[of d] show False by (cases "splitPath d") simp_all
  qed
  from split_join[OF tdir names] have sj: "splitPath (joinPath q) = q"
    by (simp add: splitPath_def joinPath_def)
  from wfNode_lookup[OF w l] have wes: "wfEntries es" by simp
  have js: "joinWith ''/'' (splitPath d) = d"
    using join_split[of "CHR ''/''" d] by (simp add: splitPath_def)
  have "(\<exists>s \<in> set (walkEntries es d). s \<notin> set keep \<and> splitPath s = q) =
        (prefix (splitPath d) q \<and> joinPath q \<notin> set keep)"
  proof
    assume "\<exists>s \<in> set (walkEntries es d). s \<notin> set keep \<and> splitPath s = q"
    then obtain s where s: "s \<in> set (walkEntries es d)" "s \<notin> set keep" "splitPath s = q" by blast
    from walkEntries_shape[OF s(1) wes] obtain r where
      r: "r \<noteq> []" "\<forall>n \<in> set r. CHR ''/'' \<notin> set n" "s = d @ ''/'' @ joinWith ''/'' r" by blast
    have "splitPath s = splitPath d @ r"
      using split_append_sep[of "CHR ''/''" d "joinWith ''/'' r"] split_join[OF r(1,2)] r(3)
      by (simp add: splitPath_def)
    with s(3) have "prefix (splitPath d) q" by (auto simp: prefix_def)
    moreover have "joinPath q = s"
      using join_split[of "CHR ''/''" s] s(3) by (simp add: splitPath_def joinPath_def)
    ultimately show "prefix (splitPath d) q \<and> joinPath q \<notin> set keep" using s(2) by simp
  next
    assume a: "prefix (splitPath d) q \<and> joinPath q \<notin> set keep"
    then obtain r where r: "q = splitPath d @ r" by (auto simp: prefix_def)
    with Some l have f: "fileAt r (Dir es) = Some c" by (simp add: fileAt_append)
    then have rn: "r \<noteq> []" by (auto simp: fileAt_simps)
    from f have "d @ ''/'' @ joinWith ''/'' r \<in> set (walkEntries es d)"
      by (intro walkEntries_complete) simp
    moreover have "joinPath q = d @ ''/'' @ joinWith ''/'' r"
      using joinWith_append[OF splitPath_not_Nil rn, of "''/''" d] r js by (simp add: joinPath_def)
    ultimately show "\<exists>s \<in> set (walkEntries es d). s \<notin> set keep \<and> splitPath s = q"
      using a sj by auto
  qed
  then show ?thesis by (simp add: fileAt_removeUnkept)
qed

lemma keepOnlyFilesLoop_frame:
  "wfNode t \<Longrightarrow> keepOnlyFilesLoop keep dirs t = Inr t' \<Longrightarrow>
   wfNode t' \<and>
   (\<forall>q. fileAt q t' = (if underItems dirs q \<and> joinPath q \<notin> set keep then None else fileAt q t))"
proof (induction dirs arbitrary: t)
  case Nil
  then show ?case by (simp add: underItems_def)
next
  case (Cons d dirs)
  show ?case
  proof (cases "lookup (splitPath d) t")
    case None
    with Cons.prems(2) have "keepOnlyFilesLoop keep dirs t = Inr t'" by simp
    from Cons.IH[OF Cons.prems(1) this] have ih: "wfNode t'"
      "\<And>q. fileAt q t' = (if underItems dirs q \<and> joinPath q \<notin> set keep then None else fileAt q t)"
      by simp_all
    have "fileAt q t' = (if underItems (d # dirs) q \<and> joinPath q \<notin> set keep then None else fileAt q t)"
      for q
      using ih(2)[of q] fileAt_below_missing[OF None, of q] by (auto simp: underItems_def)
    with ih(1) show ?thesis by simp
  next
    case (Some n)
    show ?thesis
    proof (cases n)
      case (File c)
      with Some Cons.prems(2) show ?thesis by simp
    next
      case (Dir es)
      let ?t1 = "removeUnkept keep (walkEntries es d) t"
      let ?t2 = "removeEmptyDirs (splitPath d) ?t1"
      from Some Dir have l: "lookup (splitPath d) t = Some (Dir es)" by simp
      have w1: "wfNode ?t1" using Cons.prems(1) by (rule wfNode_removeUnkept)
      from removeEmptyDirs_frame[OF w1 splitPath_not_Nil]
      have w2: "wfNode ?t2" and f2: "\<And>q. fileAt q ?t2 = fileAt q ?t1" by simp_all
      from Cons.prems(2) l have "keepOnlyFilesLoop keep dirs ?t2 = Inr t'" by simp
      from Cons.IH[OF w2 this] have ih: "wfNode t'"
        "\<And>q. fileAt q t' = (if underItems dirs q \<and> joinPath q \<notin> set keep then None else fileAt q ?t2)"
        by simp_all
      have "fileAt q t' = (if underItems (d # dirs) q \<and> joinPath q \<notin> set keep then None else fileAt q t)"
        for q
        using ih(2)[of q] f2[of q] fileAt_filter_dir[OF Cons.prems(1) l, of q keep]
        by (auto simp: underItems_def)
      with ih(1) show ?thesis by simp
    qed
  qed
qed

lemma keepOnlyFilesLoop_returns:
  "wfNode t \<Longrightarrow> \<forall>d \<in> set dirs. fileAt (splitPath d) t = None \<Longrightarrow>
   \<exists>t'. keepOnlyFilesLoop keep dirs t = Inr t'"
proof (induction dirs arbitrary: t)
  case Nil
  show ?case by simp
next
  case (Cons d dirs)
  show ?case
  proof (cases "lookup (splitPath d) t")
    case None
    with Cons show ?thesis by simp
  next
    case (Some n)
    show ?thesis
    proof (cases n)
      case (File c)
      with Some Cons.prems(2) show ?thesis by (simp add: fileAt_def)
    next
      case (Dir es)
      let ?t1 = "removeUnkept keep (walkEntries es d) t"
      let ?t2 = "removeEmptyDirs (splitPath d) ?t1"
      from Some Dir have l: "lookup (splitPath d) t = Some (Dir es)" by simp
      have w1: "wfNode ?t1" using Cons.prems(1) by (rule wfNode_removeUnkept)
      from removeEmptyDirs_frame[OF w1 splitPath_not_Nil]
      have w2: "wfNode ?t2" and f2: "\<And>q. fileAt q ?t2 = fileAt q ?t1" by simp_all
      have "\<forall>d' \<in> set dirs. fileAt (splitPath d') ?t2 = None"
        using Cons.prems(2) f2 fileAt_filter_dir[OF Cons.prems(1) l, of _ keep] by simp
      from Cons.IH[OF w2 this] l show ?thesis by simp
    qed
  qed
qed

lemma underOptional_items: "underOptional q = underItems OPTIONAL_COMPONENT_DIRS q"
  by (simp add: underOptional_def underItems_def)

lemma keepOnlyFiles_frame:
  "wfNode t \<Longrightarrow> keepOnlyFiles keep t = Inr t' \<Longrightarrow>
   wfNode t' \<and>
   fileAt q t' = (if underOptional q \<and> joinPath q \<notin> set keep then None else fileAt q t)"
  using keepOnlyFilesLoop_frame[of t keep OPTIONAL_COMPONENT_DIRS t']
  by (simp add: keepOnlyFiles_def OPTIONAL_COMPONENT_DIRS_def underOptional_items)

lemma applyComponentSelection_outside:
  assumes w: "wfNode t" and a: "applyComponentSelection env selection t = Inr t'"
    and q: "\<not> underOptional q"
  shows "fileAt q t' = fileAt q t"
proof (cases "sel_mode selection = ModeAll \<or> sel_mode selection = ModeNone")
  case True
  with a q show ?thesis
    by (auto simp: applyComponentSelection_def fileAt_removeItems underOptional_items)
next
  case False
  show ?thesis
  proof (cases "andThen (env_fetchRegistry env) (\<lambda>registry.
                  resolveDependencies (env_maxDepth env) selection registry)")
    case (Inl e)
    with a False show ?thesis by (simp add: applyComponentSelection_def)
  next
    case (Inr resolved)
    with a False obtain t1 where k: "keepOnlyFiles (res_files resolved) t = Inr t1"
      and e: "(if ''cn'' \<in> set (res_utilities resolved) then ensureDir [''src'', ''lib''] t1 else Inr t1) = Inr t'"
      by (auto simp: applyComponentSelection_def andThen_eq_Inr)
    from e have "fileAt q t' = fileAt q t1"
      by (auto simp: fileAt_ensureDir split: if_splits)
    with keepOnlyFiles_frame[OF w k, of q] q show ?thesis by simp
  qed
qed

lemma applyComponentSelection_resolved:
  assumes w: "wfNode t" and a: "applyComponentSelection env selection t = Inr t'"
    and m: "sel_mode selection = ModeCategories \<or> sel_mode selection = ModeIndividual"
    and f: "env_fetchRegistry env = Inr R"
    and r: "resolveDependencies (env_maxDepth env) selection R = Inr res"
  shows "fileAt q t' = (if underOptional q \<and> joinPath q \<notin> set (res_files res) then None else fileAt q t)"
proof -
  from m have m': "sel_mode selection \<noteq> ModeAll" "sel_mode selection \<noteq> ModeNone" by auto
  from a m' f r obtain t1 where k: "keepOnlyFiles (res_files res) t = Inr t1"
    and e: "(if ''cn'' \<in> set (res_utilities res) then ensureDir [''src'', ''lib''] t1 else Inr t1) = Inr t'"
    by (auto simp: applyComponentSelection_def andThen_eq_Inr)
  from e have "fileAt q t' = fileAt q t1"
    by (auto simp: fileAt_ensureDir split: if_splits)
  with keepOnlyFiles_frame[OF w k, of q] show ?thesis by simp
qed

section \<open>The stated properties of the pipeline\<close>




text \<open>
  Claim C4. Take a well-formed working tree (entry names as \<open>readdirSync\<close> returns them,
  none twice in a directory). When \<open>keepOnlyFiles\<close> returns, a path holds a file exactly
  as before, with the same text, unless it lies under one of the three optional component
  directories and its project-relative form is not in the set to keep: then it holds no
  file. So every file under an optional directory that is not in the resolved set is
  absent, every resolved file the template had is still there, and every file elsewhere
  is unchanged. \<open>keepOnlyFiles\<close> returns whenever none of the three directory paths is a
  regular file. For \<open>applyComponentSelection\<close>, whatever the selection, registry and
  outcome of the fetch: the files outside the optional directories are unchanged; and
  with a \<open>categories\<close> or \<open>individual\<close> selection resolved to \<open>res\<close>, the set to keep is
  \<open>res_files res\<close>.
\<close>

theorem selective_filtering_frame:
  assumes "wfNode t"
  shows "(keepOnlyFiles keep t = Inr t1 \<longrightarrow>
            fileAt q t1 = (if underOptional q \<and> joinPath q \<notin> set keep then None else fileAt q t)) \<and>
         ((\<forall>d \<in> set OPTIONAL_COMPONENT_DIRS. fileAt (splitPath d) t = None) \<longrightarrow>
            (\<exists>t'. keepOnlyFiles keep t = Inr t')) \<and>
         (applyComponentSelection env selection t = Inr t2 \<and> \<not> underOptional q \<longrightarrow>
            fileAt q t2 = fileAt q t) \<and>
         (applyComponentSelection env selection t = Inr t2 \<and>
          (sel_mode selection = ModeCategories \<or> sel_mode selection = ModeIndividual) \<and>
          env_fetchRegistry env = Inr R \<and>
          resolveDependencies (env_maxDepth env) selection R = Inr res \<longrightarrow>
            fileAt q t2 =
              (if underOptional q \<and> joinPath q \<notin> set (res_files res) then None else fileAt q t))"
proof (intro conjI impI)
  assume "keepOnlyFiles keep t = Inr t1"
  from keepOnlyFiles_frame[OF assms this, of q]
  show "fileAt q t1 = (if underOptional q \<and> joinPath q \<notin> set keep then None else fileAt q t)"
    by simp
next
  assume "\<forall>d \<in> set OPTIONAL_COMPONENT_DIRS. fileAt (splitPath d) t = None"
  from keepOnlyFilesLoop_returns[OF assms this, of keep]
  show "\<exists>t'. keepOnlyFiles keep t = Inr t'"
    by (simp add: keepOnlyFiles_def OPTIONAL_COMPONENT_DIRS_def)
next
  assume "applyComponentSelection env selection t = Inr t2 \<and> \<not> underOptional q"
  then show "fileAt q t2 = fileAt q t"
    using applyComponentSelection_outside[OF assms, of env selection t2 q] by simp
next
  assume "applyComponentSelection env selection t = Inr t2 \<and>
          (sel_mode selection = ModeCategories \<or> sel_mode selection = ModeIndividual) \<and>
          env_fetchRegistry env = Inr R \<and>
          resolveDependencies (env_maxDepth env) selection R = Inr res"
  then show "fileAt q t2 =
              (if underOptional q \<and> joinPath q \<notin> set (res_files res) then None else fileAt q t)"
    using applyComponentSelection_resolved[OF assms, of env selection t2 R res q] by simp
qed

theorem selective_filtering_frame_witness:
  "wfNode sampleTemplate \<and>
   list_all (\<lambda>d. fileAt (splitPath d) sampleTemplate = None) OPTIONAL_COMPONENT_DIRS \<and>
   (\<exists>t'. keepOnlyFiles [''src/components/ui/form/Button.astro''] sampleTemplate = Inr t' \<and>
      fileAt [''src'', ''components'', ''ui'', ''Badge.astro''] t' = None \<and>
      fileAt [''src'', ''components'', ''ui'', ''form'', ''Button.astro''] t' = Some ''button'' \<and>
      fileAt [''src'', ''components'', ''layout'', ''Header.astro''] t' = Some ''header'') \<and>
   sel_mode (selectCategories [''ui'']) = ModeCategories \<and>
   env_fetchRegistry sampleEnv = Inr sampleRegistry \<and>
   (\<exists>res t'. resolveDependencies (env_maxDepth sampleEnv) (selectCategories [''ui'']) sampleRegistry = Inr res \<and>
      applyComponentSelection sampleEnv (selectCategories [''ui'']) sampleTemplate = Inr t' \<and>
      fileAt [''src'', ''components'', ''hero'', ''Hero.astro''] t' = None \<and>
      fileAt [''src'', ''pages'', ''about.astro''] t' = Some ''demo about'')"
proof -
  let ?keep = "[''src/components/ui/form/Button.astro'']"
  let ?badge = "[''src'', ''components'', ''ui'', ''Badge.astro'']"
  let ?button = "[''src'', ''components'', ''ui'', ''form'', ''Button.astro'']"
  let ?header = "[''src'', ''components'', ''layout'', ''Header.astro'']"
  let ?hero = "[''src'', ''components'', ''hero'', ''Hero.astro'']"
  let ?about = "[''src'', ''pages'', ''about.astro'']"
  let ?sel = "selectCategories [''ui'']"
  have w: "wfNode sampleTemplate" by code_simp
  have dirs: "list_all (\<lambda>d. fileAt (splitPath d) sampleTemplate = None) OPTIONAL_COMPONENT_DIRS"
    by code_simp
  then have dirs': "\<forall>d \<in> set OPTIONAL_COMPONENT_DIRS. fileAt (splitPath d) sampleTemplate = None"
    by (simp add: list_all_iff)
  have m: "sel_mode ?sel = ModeCategories" by (simp add: selectCategories_def)
  have f: "env_fetchRegistry sampleEnv = Inr sampleRegistry" by (simp add: sampleEnv_def)
  have e1: "(if underOptional ?badge \<and> joinPath ?badge \<notin> set ?keep then None
             else fileAt ?badge sampleTemplate) = None" by code_simp
  have e2: "(if underOptional ?button \<and> joinPath ?button \<notin> set ?keep then None
             else fileAt ?button sampleTemplate) = Some ''button''" by code_simp
  have e3: "(if underOptional ?header \<and> joinPath ?header \<notin> set ?keep then None
             else fileAt ?header sampleTemplate) = Some ''header''" by code_simp
  have e4: "\<not> underOptional ?about" by code_simp
  have e5: "fileAt ?about sampleTemplate = Some ''demo about''" by code_simp
  have r: "resolveDependencies (env_maxDepth sampleEnv) ?sel sampleRegistry =
        Inr \<lparr>res_components = [''button''], res_utilities = [],
             res_files = ?keep, res_npmPackages = []\<rparr>" by code_simp
  have e6: "(if underOptional ?hero \<and> joinPath ?hero \<notin> set ?keep then None
             else fileAt ?hero sampleTemplate) = None" by code_simp
  have "case applyComponentSelection sampleEnv ?sel sampleTemplate of
          Inl e \<Rightarrow> False | Inr t' \<Rightarrow> True" by code_simp
  then obtain t2 where a: "applyComponentSelection sampleEnv ?sel sampleTemplate = Inr t2"
    by (cases "applyComponentSelection sampleEnv ?sel sampleTemplate") auto
  from selective_filtering_frame[OF w, of ?keep] dirs'
  obtain t1 where k: "keepOnlyFiles ?keep sampleTemplate = Inr t1" by blast
  from selective_filtering_frame[OF w, of ?keep t1 ?badge] k e1
  have k1: "fileAt ?badge t1 = None" by simp
  from selective_filtering_frame[OF w, of ?keep t1 ?button] k e2
  have k2: "fileAt ?button t1 = Some ''button''" by simp
  from selective_filtering_frame[OF w, of ?keep t1 ?header] k e3
  have k3: "fileAt ?header t1 = Some ''header''" by simp
  from selective_filtering_frame[OF w, of _ _ ?about sampleEnv ?sel t2] a e4 e5
  have a1: "fileAt ?about t2 = Some ''demo about''" by simp
  from selective_filtering_frame[OF w, of _ _ ?hero sampleEnv ?sel t2 sampleRegistry
         "\<lparr>res_components = [''button''], res_utilities = [],
             res_files = ?keep, res_npmPackages = []\<rparr>"] a m f r e6
  have a2: "fileAt ?hero t2 = None" by simp
  from w dirs k k1 k2 k3 m f r a a1 a2 show ?thesis by simp
qed

section \<open>Which paths hold a file\<close>

lemma filesOf_write: "writeFileSync p c t = Inr t' \<Longrightarrow> filesOf t' = insert p (filesOf t)"
  by (auto simp: filesOf_def fileAt_write)

lemma filesOf_mkdir: "mkdirSync p t = Inr t' \<Longrightarrow> filesOf t' = filesOf t"
  by (simp add: filesOf_def fileAt_mkdir)

lemma filesOf_ensureDir: "ensureDir p t = Inr t' \<Longrightarrow> filesOf t' = filesOf t"
  by (simp add: filesOf_def fileAt_ensureDir)

lemma readFileSync_filesOf: "readFileSync p t = Inr c \<Longrightarrow> p \<in> filesOf t"
  by (auto simp: readFileSync_def filesOf_def fileAt_def split: option.splits node.splits)

lemma filesOf_rewrite:
  "readFileSync p t = Inr c \<Longrightarrow> writeFileSync p c' t = Inr t' \<Longrightarrow> filesOf t' = filesOf t"
  using readFileSync_filesOf[of p t c] filesOf_write[of p c' t t'] by auto

lemma filesOf_addBaseRouteEntry: "addBaseRouteEntry pageName t = Inr t' \<Longrightarrow> filesOf t' = filesOf t"
proof -
  assume a: "addBaseRouteEntry pageName t = Inr t'"
  let ?p = "[''src'', ''config'', ''routes.ts'']"
  show ?thesis
  proof (cases "existsSync ?p t")
    case False
    with a show ?thesis by (simp add: addBaseRouteEntry_def)
  next
    case True
    with a obtain content where r: "readFileSync ?p t = Inr content"
      by (cases "readFileSync ?p t") (simp_all add: addBaseRouteEntry_def Let_def)
    show ?thesis
    proof (cases "t' = t")
      case True
      then show ?thesis by simp
    next
      case False
      with a True r obtain c' where "writeFileSync ?p c' t = Inr t'"
        by (auto simp: addBaseRouteEntry_def Let_def split: if_splits option.splits)
      from filesOf_rewrite[OF r this] show ?thesis .
    qed
  qed
qed

lemma filesOf_addI18nTranslationKeysLoop:
  "addI18nTranslationKeysLoop locs routeId title t = Inr t' \<Longrightarrow> filesOf t' = filesOf t"
proof (induction locs arbitrary: t)
  case Nil
  then show ?case by simp
next
  case (Cons loc locs)
  let ?p = "[''src'', ''i18n'', ''translations'', loc @ ''.ts'']"
  show ?case
  proof (cases "existsSync ?p t")
    case False
    with Cons show ?thesis by simp
  next
    case True
    with Cons.prems obtain content t1 where r: "readFileSync ?p t = Inr content"
      and w: "writeFileSync ?p (addPageKeys routeId title (addNavKey routeId title content)) t = Inr t1"
      and l: "addI18nTranslationKeysLoop locs routeId title t1 = Inr t'"
      by (auto simp: andThen_eq_Inr Let_def)
    from Cons.IH[OF l] filesOf_rewrite[OF r w] show ?thesis by simp
  qed
qed

lemma filesOf_addI18nRouteEntry: "addI18nRouteEntry pageName t = Inr t' \<Longrightarrow> filesOf t' = filesOf t"
proof -
  assume a: "addI18nRouteEntry pageName t = Inr t'"
  let ?p = "[''src'', ''i18n'', ''routes.ts'']"
  show ?thesis
  proof (cases "existsSync ?p t")
    case False
    with a show ?thesis by (simp add: addI18nRouteEntry_def)
  next
    case True
    with a obtain content where r: "readFileSync ?p t = Inr content"
      by (cases "readFileSync ?p t") (simp_all add: addI18nRouteEntry_def Let_def)
    show ?thesis
    proof (cases "t' = t")
      case True
      then show ?thesis by simp
    next
      case False
      with a True r obtain c' t1 where w: "writeFileSync ?p c' t = Inr t1"
        and k: "addI18nTranslationKeys (toRouteId pageName) (toTitle pageName) t1 = Inr t'"
        by (auto simp: addI18nRouteEntry_def Let_def andThen_eq_Inr split: if_splits option.splits)
      from filesOf_rewrite[OF r w] filesOf_addI18nTranslationKeysLoop[OF k[unfolded addI18nTranslationKeys_def]]
      show ?thesis by simp
    qed
  qed
qed

lemma filesOf_standardPagesLoop:
  "standardPagesLoop pages layout isI18n (t, g) = Inr (t', g') \<Longrightarrow>
   filesOf t' = filesOf t \<union> pagePath ` set pages"
proof (induction pages arbitrary: t g)
  case Nil
  then show ?case by simp
next
  case (Cons pageName pages)
  from Cons.prems obtain t1 t2 where
    w: "writeFileSync [''src'', ''pages'', pageName @ ''.astro''] (generatePageTemplate pageName layout) t = Inr t1"
    and r: "(if \<not> isI18n then addBaseRouteEntry pageName t1 else Inr t1) = Inr t2"
    and l: "standardPagesLoop pages layout isI18n (t2, g @ [''src/pages/'' @ pageName @ ''.astro'']) = Inr (t', g')"
    by (auto simp: andThen_eq_Inr)
  from r have "filesOf t2 = filesOf t1" by (auto simp: filesOf_addBaseRouteEntry split: if_splits)
  with Cons.IH[OF l] filesOf_write[OF w] show ?case by (auto simp: pagePath_def)
qed

lemma filesOf_i18nPagesLoop:
  "i18nPagesLoop pages layout (t, g) = Inr (t', g') \<Longrightarrow>
   filesOf t' = filesOf t \<union> i18nPagePath ` set pages"
proof (induction pages arbitrary: t g)
  case Nil
  then show ?case by simp
next
  case (Cons pageName pages)
  from Cons.prems obtain t1 t2 where
    w: "writeFileSync [''src'', ''pages'', ''[lang]'', ''[...'' @ toRouteId pageName @ ''].astro'']
          (generateI18nPageTemplate pageName layout) t = Inr t1"
    and r: "addI18nRouteEntry pageName t1 = Inr t2"
    and l: "i18nPagesLoop pages layout
              (t2, g @ [''src/pages/[lang]/[...'' @ toRouteId pageName @ ''].astro'']) = Inr (t', g')"
    by (auto simp: andThen_eq_Inr Let_def)
  from Cons.IH[OF l] filesOf_write[OF w] filesOf_addI18nRouteEntry[OF r]
  show ?case by (auto simp: i18nPagePath_def)
qed

lemma filesOf_generatePages:
  assumes "generatePages t pages layout isI18n = Inr (t', g)"
  shows "filesOf t' = filesOf t \<union> pagePath ` set pages \<union>
           (if isI18n then i18nPagePath ` set pages else {})"
proof (cases "pages = []")
  case True
  with assms show ?thesis by (simp add: generatePages_def)
next
  case False
  with assms obtain t0 st where
    e: "ensureDir [''src'', ''pages''] t = Inr t0"
    and s0: "standardPagesLoop pages layout isI18n (t0, []) = Inr st"
    and rest0: "(if isI18n then
          andThen (ensureDir [''src'', ''pages'', ''[lang]''] (fst st)) (\<lambda>t2.
          i18nPagesLoop pages layout (t2, snd st))
        else Inr st) = Inr (t', g)"
    by (auto simp: generatePages_def andThen_eq_Inr)
  obtain t1 g1 where st: "st = (t1, g1)" by (cases st)
  from s0 st have s: "standardPagesLoop pages layout isI18n (t0, []) = Inr (t1, g1)" by simp
  have rest: "(if isI18n then
          andThen (ensureDir [''src'', ''pages'', ''[lang]''] t1) (\<lambda>t2.
          i18nPagesLoop pages layout (t2, g1))
        else Inr (t1, g1)) = Inr (t', g)"
    using rest0[unfolded st] by (cases isI18n) simp_all
  from filesOf_ensureDir[OF e] filesOf_standardPagesLoop[OF s]
  have f1: "filesOf t1 = filesOf t \<union> pagePath ` set pages" by simp
  show ?thesis
  proof (cases isI18n)
    case False
    with rest f1 show ?thesis by simp
  next
    case True
    with rest obtain t2 where e2: "ensureDir [''src'', ''pages'', ''[lang]''] t1 = Inr t2"
      and l: "i18nPagesLoop pages layout (t2, g1) = Inr (t', g)"
      by (auto simp: andThen_eq_Inr)
    from filesOf_ensureDir[OF e2] filesOf_i18nPagesLoop[OF l] f1 True show ?thesis by simp
  qed
qed

lemma overlaid_File_entry:
  assumes w: "writeFileSync (dest @ [name]) c t = Inr t1"
    and o: "overlaid (Dir entries) dest t1 t'"
    and d: "name \<notin> fst ` set entries"
  shows "overlaid (Dir ((name, File c) # entries)) dest t t'"
  unfolding overlaid_def
proof (intro conjI allI impI)
  fix r
  from d have none: "map_of entries name = None" by (simp add: map_of_eq_None_iff)
  from o have a: "fileAt (dest @ r) t' =
      (case fileAt r (Dir entries) of Some c \<Rightarrow> Some c | None \<Rightarrow> fileAt (dest @ r) t1)"
    by (simp add: overlaid_def)
  have b: "fileAt (dest @ r) t1 = (if r = [name] then Some c else fileAt (dest @ r) t)"
    using fileAt_write[OF w, of "dest @ r"] by simp
  show "fileAt (dest @ r) t' =
      (case fileAt r (Dir ((name, File c) # entries)) of Some c \<Rightarrow> Some c
       | None \<Rightarrow> fileAt (dest @ r) t)"
  proof (cases r)
    case Nil
    with a b show ?thesis by (simp add: fileAt_simps)
  next
    case (Cons s r')
    show ?thesis
    proof (cases "s = name")
      case True
      with Cons a b none show ?thesis by (simp add: fileAt_simps fileAt_File cong: option.case_cong)
    next
      case False
      with Cons a b show ?thesis by (simp add: fileAt_simps cong: option.case_cong)
    qed
  qed
next
  fix q assume q: "\<not> prefix dest q"
  then have "q \<noteq> dest @ [name]" by auto
  with fileAt_write[OF w, of q] have "fileAt q t1 = fileAt q t" by simp
  with o q show "fileAt q t' = fileAt q t" by (simp add: overlaid_def)
qed

lemma overlaid_Dir_entry:
  assumes o1: "overlaid (Dir sub) (dest @ [name]) t t1"
    and o: "overlaid (Dir entries) dest t1 t'"
    and d: "name \<notin> fst ` set entries"
  shows "overlaid (Dir ((name, Dir sub) # entries)) dest t t'"
  unfolding overlaid_def
proof (intro conjI allI impI)
  fix r
  from d have none: "map_of entries name = None" by (simp add: map_of_eq_None_iff)
  from o have a: "fileAt (dest @ r) t' =
      (case fileAt r (Dir entries) of Some c \<Rightarrow> Some c | None \<Rightarrow> fileAt (dest @ r) t1)"
    by (simp add: overlaid_def)
  show "fileAt (dest @ r) t' =
      (case fileAt r (Dir ((name, Dir sub) # entries)) of Some c \<Rightarrow> Some c
       | None \<Rightarrow> fileAt (dest @ r) t)"
  proof (cases r)
    case Nil
    have "\<not> prefix (dest @ [name]) dest" by (simp add: prefix_def)
    with o1 have "fileAt dest t1 = fileAt dest t" by (simp add: overlaid_def)
    with Nil a show ?thesis by (simp add: fileAt_simps)
  next
    case (Cons s r')
    show ?thesis
    proof (cases "s = name")
      case True
      from o1 have "fileAt ((dest @ [name]) @ r') t1 =
          (case fileAt r' (Dir sub) of Some c \<Rightarrow> Some c | None \<Rightarrow> fileAt ((dest @ [name]) @ r') t)"
        unfolding overlaid_def by blast
      with True Cons a none show ?thesis by (simp add: fileAt_simps cong: option.case_cong)
    next
      case False
      then have "\<not> prefix (dest @ [name]) (dest @ s # r')" by (auto simp: prefix_def)
      with o1 have "fileAt (dest @ s # r') t1 = fileAt (dest @ s # r') t"
        unfolding overlaid_def by blast
      with False Cons a show ?thesis by (simp add: fileAt_simps cong: option.case_cong)
    qed
  qed
next
  fix q assume q: "\<not> prefix dest q"
  then have "\<not> prefix (dest @ [name]) q" by (auto simp: prefix_def)
  with o1 have "fileAt q t1 = fileAt q t" by (simp add: overlaid_def)
  with o q show "fileAt q t' = fileAt q t" by (simp add: overlaid_def)
qed

lemma copy_overlaid:
  "wfNode src \<longrightarrow> (\<forall>t'. copyTemplateFiles src dest t = Inr t' \<longrightarrow> overlaid src dest t t')"
  "wfEntries es \<and> distinct (map fst es) \<longrightarrow>
     (\<forall>t'. copyEntries es dest t = Inr t' \<longrightarrow> overlaid (Dir es) dest t t')"
proof (induction src dest t and es dest t rule: copyTemplateFiles_copyEntries.induct)
  case (1 c dest t)
  show ?case by simp
next
  case (2 entries dest t)
  show ?case
  proof (intro impI allI)
    fix t' assume w: "wfNode (Dir entries)"
      and c: "copyTemplateFiles (Dir entries) dest t = Inr t'"
    from c obtain t0 where e: "ensureDir dest t = Inr t0" and c0: "copyEntries entries dest t0 = Inr t'"
      by (auto simp: andThen_eq_Inr)
    from 2[of t0] w c0 have o: "overlaid (Dir entries) dest t0 t'" by simp
    from fileAt_ensureDir[OF e] have "\<And>q. fileAt q t0 = fileAt q t" .
    with o show "overlaid (Dir entries) dest t t'" by (simp add: overlaid_def cong: option.case_cong)
  qed
next
  case (3 dest t)
  show ?case by (simp add: overlaid_def fileAt_empty_Dir)
next
  case (4 name c entries dest t)
  show ?case
  proof (intro impI allI)
    fix t' assume w: "wfEntries ((name, File c) # entries) \<and> distinct (map fst ((name, File c) # entries))"
      and c: "copyEntries ((name, File c) # entries) dest t = Inr t'"
    from c obtain t1 where wr: "writeFileSync (dest @ [name]) c t = Inr t1"
      and c1: "copyEntries entries dest t1 = Inr t'"
      by (auto simp: andThen_eq_Inr)
    from 4[of t1] w c1 have o: "overlaid (Dir entries) dest t1 t'" by simp
    from w have d: "name \<notin> fst ` set entries" by simp
    from overlaid_File_entry[OF wr o d]
    show "overlaid (Dir ((name, File c) # entries)) dest t t'" .
  qed
next
  case (5 name sub entries dest t)
  show ?case
  proof (intro impI allI)
    fix t' assume w: "wfEntries ((name, Dir sub) # entries) \<and> distinct (map fst ((name, Dir sub) # entries))"
      and c: "copyEntries ((name, Dir sub) # entries) dest t = Inr t'"
    from c obtain t1 where cs: "copyTemplateFiles (Dir sub) (dest @ [name]) t = Inr t1"
      and c1: "copyEntries entries dest t1 = Inr t'"
      by (auto simp: andThen_eq_Inr)
    from 5(1) w cs have o1: "overlaid (Dir sub) (dest @ [name]) t t1" by simp
    from 5(2)[of t1] w c1 have o: "overlaid (Dir entries) dest t1 t'" by simp
    from w have d: "name \<notin> fst ` set entries" by simp
    from overlaid_Dir_entry[OF o1 o d]
    show "overlaid (Dir ((name, Dir sub) # entries)) dest t t'" .
  qed
qed

lemma copyTemplateFiles_root:
  "wfNode src \<Longrightarrow> copyTemplateFiles src [] t = Inr t' \<Longrightarrow>
   fileAt q t' = (case fileAt q src of Some c \<Rightarrow> Some c | None \<Rightarrow> fileAt q t)"
  using copy_overlaid(1)[of src "[]" t] by (simp add: overlaid_def cong: option.case_cong)

lemma filesOf_copyTemplateFiles:
  "wfNode src \<Longrightarrow> copyTemplateFiles src [] t = Inr t' \<Longrightarrow> filesOf t' = filesOf t \<union> filesOf src"
  by (auto simp: filesOf_def copyTemplateFiles_root split: option.splits)

lemma filesOf_removeItems:
  "filesOf (removeItems items t) = {q \<in> filesOf t. \<not> underItems items q}"
  by (auto simp: filesOf_def fileAt_removeItems)

lemma filesOf_createContentDirectories:
  "createContentDirectories t = Inr t' \<Longrightarrow>
   filesOf t \<subseteq> filesOf t' \<and> filesOf t' \<subseteq> insert [''src'', ''content'', ''blog'', ''.gitkeep''] (filesOf t)"
proof -
  assume a: "createContentDirectories t = Inr t'"
  have sp: "splitPath ''src/content/blog'' = [''src'', ''content'', ''blog'']"
    by (simp add: splitPath_def)
  show ?thesis
  proof (cases "existsSync [''src'', ''content'', ''blog''] t")
    case True
    with a sp show ?thesis by (auto simp: createContentDirectories_def)
  next
    case False
    with a sp obtain t1 where m: "mkdirSync [''src'', ''content'', ''blog''] t = Inr t1"
      and w: "writeFileSync [''src'', ''content'', ''blog'', ''.gitkeep''] [] t1 = Inr t'"
      by (auto simp: createContentDirectories_def andThen_eq_Inr)
    from filesOf_mkdir[OF m] filesOf_write[OF w] show ?thesis by auto
  qed
qed

lemma filesOf_updatePackageJson:
  "updatePackageJson env projectName t = Inr t' \<Longrightarrow> filesOf t' = filesOf t"
proof -
  assume a: "updatePackageJson env projectName t = Inr t'"
  then obtain content pkg where r: "readFileSync [''package.json''] t = Inr content"
    and w: "writeFileSync [''package.json''] pkg t = Inr t'"
    by (auto simp: updatePackageJson_def Let_def andThen_eq_Inr split: if_splits option.splits)
  from filesOf_rewrite[OF r w] show ?thesis .
qed

lemma filesOf_writeVelocityJson:
  "filesOf t \<subseteq> filesOf (writeVelocityJson env t) \<and>
   filesOf (writeVelocityJson env t) \<subseteq> insert [''.velocity.json''] (filesOf t)"
proof (cases "env_velocityJson env")
  case None
  then show ?thesis by (auto simp: writeVelocityJson_def)
next
  case (Some config)
  show ?thesis
  proof (cases "writeFileSync [''.velocity.json''] config t")
    case (Inl e)
    with Some show ?thesis by (auto simp: writeVelocityJson_def)
  next
    case (Inr t')
    from filesOf_write[OF Inr] Some Inr show ?thesis by (auto simp: writeVelocityJson_def)
  qed
qed

lemma scaffold_stages:
  assumes "scaffold env options = Inr t"
  obtains downloaded t2 t3 t4 t5 t6 where
    "env_downloadTemplate env = Inr downloaded"
    "(if sel_mode (opt_componentSelection options) \<noteq> ModeAll
      then applyComponentSelection env (opt_componentSelection options)
             (removeItems CLEANUP_ITEMS downloaded)
      else Inr (removeItems CLEANUP_ITEMS downloaded)) = Inr t2"
    "(if opt_i18n options then applyI18nOverlay env t2 else Inr t2) = Inr t3"
    "(if \<not> opt_demo options
      then andThen (applyBaseTemplate env (removeItems DEMO_CONTENT t3)) createContentDirectories
      else Inr t3) = Inr t4"
    "(if length (opt_pages options) > 0
      then andThen (generatePages t4 (opt_pages options) (opt_pageLayout options)
                      (opt_i18n options)) (\<lambda>r. Inr (fst r))
      else Inr t4) = Inr t5"
    "updatePackageJson env (opt_projectName options) t5 = Inr t6"
    "t = writeVelocityJson env t6"
proof (cases "env_downloadTemplate env")
  case (Inl e)
  with assms show ?thesis by (simp add: scaffold_def)
next
  case (Inr downloaded)
  with assms that show ?thesis
    unfolding scaffold_def by (simp add: andThen_eq_Inr) blast
qed

lemma filesOf_pages_stage:
  assumes "(if length pages > 0
      then andThen (generatePages t4 pages layout isI18n) (\<lambda>r. Inr (fst r))
      else Inr t4) = Inr t5"
  shows "filesOf t5 = filesOf t4 \<union> pagePath ` set pages \<union>
           (if isI18n then i18nPagePath ` set pages else {})"
proof (cases "pages = []")
  case True
  with assms show ?thesis by simp
next
  case False
  with assms obtain r where g: "generatePages t4 pages layout isI18n = Inr r" and f: "t5 = fst r"
    by (auto simp: andThen_eq_Inr)
  obtain g' where "r = (t5, g')" using f by (cases r) simp
  with g filesOf_generatePages[of t4 pages layout isI18n t5 g'] show ?thesis by simp
qed

lemma filesOf_tail:
  assumes p: "(if length (opt_pages options) > 0
      then andThen (generatePages t4 (opt_pages options) (opt_pageLayout options)
                      (opt_i18n options)) (\<lambda>r. Inr (fst r))
      else Inr t4) = Inr t5"
    and u: "updatePackageJson env (opt_projectName options) t5 = Inr t6"
  shows "filesOf t4 \<subseteq> filesOf (writeVelocityJson env t6)"
    and "filesOf (writeVelocityJson env t6) \<subseteq>
           filesOf t4 \<union> pagePath ` set (opt_pages options) \<union>
           i18nPagePath ` set (opt_pages options) \<union> {[''.velocity.json'']}"
  using filesOf_pages_stage[OF p] filesOf_updatePackageJson[OF u]
    filesOf_writeVelocityJson[of t6 env]
  by (auto split: if_splits)

lemma filesOf_overlay_stage:
  assumes "applyI18nOverlay env t2 = Inr t3" and "env_i18nTemplate env = Some overlay"
    and "wfNode overlay"
  shows "filesOf t3 = filesOf t2 \<union> filesOf overlay"
  using assms filesOf_copyTemplateFiles[of overlay t2 t3] by (simp add: applyI18nOverlay_def)

lemma filesOf_minimal_stage:
  assumes "andThen (applyBaseTemplate env (removeItems DEMO_CONTENT t3)) createContentDirectories = Inr t4"
    and "env_baseTemplate env = Some base" and "wfNode base"
  shows "{q \<in> filesOf t3. \<not> underItems DEMO_CONTENT q} \<union> filesOf base \<subseteq> filesOf t4"
    and "filesOf t4 \<subseteq> {q \<in> filesOf t3. \<not> underItems DEMO_CONTENT q} \<union> filesOf base
           \<union> {[''src'', ''content'', ''blog'', ''.gitkeep'']}"
proof -
  from assms(1) obtain tb where b: "applyBaseTemplate env (removeItems DEMO_CONTENT t3) = Inr tb"
    and c: "createContentDirectories tb = Inr t4" by (auto simp: andThen_eq_Inr)
  from b assms(2) have "copyTemplateFiles base [] (removeItems DEMO_CONTENT t3) = Inr tb"
    by (simp add: applyBaseTemplate_def)
  from filesOf_copyTemplateFiles[OF assms(3) this]
  have fb: "filesOf tb = {q \<in> filesOf t3. \<not> underItems DEMO_CONTENT q} \<union> filesOf base"
    by (simp add: filesOf_removeItems)
  from filesOf_createContentDirectories[OF c] fb
  show "{q \<in> filesOf t3. \<not> underItems DEMO_CONTENT q} \<union> filesOf base \<subseteq> filesOf t4"
    and "filesOf t4 \<subseteq> {q \<in> filesOf t3. \<not> underItems DEMO_CONTENT q} \<union> filesOf base
           \<union> {[''src'', ''content'', ''blog'', ''.gitkeep'']}"
    by auto
qed

lemma velocityJson_not_demo: "\<not> underItems DEMO_CONTENT [''.velocity.json'']"
  by (simp add: underItems_def DEMO_CONTENT_def splitPath_def)

lemma demoPages_under: "d \<in> set demoPages \<Longrightarrow> underItems DEMO_CONTENT (splitPath d)"
  by (auto simp: demoPages_def underItems_def)

lemma demoPages_not_gitkeep:
  "d \<in> set demoPages \<Longrightarrow> splitPath d \<noteq> [''src'', ''content'', ''blog'', ''.gitkeep'']"
  by (auto simp: demoPages_def DEMO_CONTENT_def splitPath_def)

end
